theory Spec2Isabelle
  imports Complex_Main "HOL-Library.Word" "HOL-Library.Log_Nat"
begin

text \<open>
  A shallow embedding of the audio preprocessing pipeline of \<open>voice_w_cbuff.cpp\<close>: the
  ring buffer \<open>CircularBuffer\<close>, the noise gate \<open>isAudioAboveNoiseGate\<close>, the
  high-pass filter \<open>applyHighPassFilter\<close>, the gain control \<open>applyAGC\<close> and the
  PortAudio callback \<open>paCallback\<close> that runs them on every block.

  The first part holds every definition: the machine-level data, IEEE 754 arithmetic,
  the functions of the program in source order, and the quantities the specification
  talks about. The second part holds the lemmas and the theorems about them.
\<close>

section \<open>Machine-level data\<close>

text \<open>
  Samples are C++ \<open>short\<close>: 16-bit two's complement words, read with \<open>sint\<close>.
  Indices and counts are \<open>size_t\<close>: 64-bit unsigned. They are modelled as \<open>nat\<close> and
  every place where the C++ arithmetic could wrap is written with \<open>size_t\<close>
  (reduction modulo \<open>2 ^ 64\<close>).

  Undefined behaviour of the source (an index outside a \<open>std::vector\<close>, a remainder
  by zero, a floating-point value converted to \<open>short\<close> that does not fit) and the
  exception of the \<open>std::vector\<close> constructor are values of type \<open>fault\<close>; every
  operation that can run into one returns \<open>fault + 'a\<close>.
\<close>

type_synonym short = "16 word"

datatype fault = OutOfBounds | DivisionByZero | LengthError | CastOutOfRange

definition size_t :: "nat \<Rightarrow> nat" where
  "size_t n = n mod 2 ^ 64"

text \<open>\<open>a - b\<close> on \<open>size_t\<close> operands (both below \<open>2 ^ 64\<close>): wraps when \<open>a < b\<close>.\<close>

definition size_t_sub :: "nat \<Rightarrow> nat \<Rightarrow> nat" where
  "size_t_sub a b = size_t (a + 2 ^ 64 - b)"

text \<open>
  \<open>std::vector<short>::max_size()\<close> on a 64-bit target: \<open>PTRDIFF_MAX / sizeof(short)\<close>.
  A constructor call with a larger size throws \<open>std::length_error\<close>.
\<close>

definition vector_max_size :: nat where
  "vector_max_size = (2 ^ 63 - 1) div 2"

section \<open>CircularBuffer\<close>

record CircularBuffer =
  buffer :: "short list"
  head :: nat
  tail :: nat
  count :: nat
  capacity :: nat

text \<open>\<open>CircularBuffer(size_t size) : buffer(size), head(0), tail(0), count(0), capacity(size)\<close>\<close>

definition CircularBuffer_new :: "nat \<Rightarrow> fault + CircularBuffer" where
  "CircularBuffer_new sz =
     (if vector_max_size < sz then Inl LengthError
      else Inr \<lparr>buffer = replicate sz 0, head = 0, tail = 0, count = 0, capacity = sz\<rparr>)"

text \<open>One iteration of the loop of \<open>push\<close>, for the sample \<open>data[i]\<close>.\<close>

definition push_one :: "short \<Rightarrow> CircularBuffer \<Rightarrow> fault + CircularBuffer" where
  "push_one x s =
     (if length (buffer s) \<le> head s then Inl OutOfBounds
      else if capacity s = 0 then Inl DivisionByZero
      else
        let s1 = s\<lparr>buffer := (buffer s)[head s := x],
                   head := size_t (head s + 1) mod capacity s\<rparr>
        in Inr (if count s1 < capacity s1
                then s1\<lparr>count := size_t (count s1 + 1)\<rparr>
                else s1\<lparr>tail := size_t (tail s1 + 1) mod capacity s1\<rparr>))"

text \<open>\<open>push(data, len)\<close>: the block \<open>data[0 .. len-1]\<close> is the list, in order.\<close>

fun push :: "short list \<Rightarrow> CircularBuffer \<Rightarrow> fault + CircularBuffer" where
  "push [] s = Inr s"
| "push (x # xs) s =
     (case push_one x s of Inl e \<Rightarrow> Inl e | Inr s' \<Rightarrow> push xs s')"

text \<open>The loop of \<open>getSmoothed\<close>, from index \<open>i\<close> on, with the result vector so far.\<close>

function getSmoothed_loop ::
  "CircularBuffer \<Rightarrow> nat \<Rightarrow> nat \<Rightarrow> nat \<Rightarrow> short list \<Rightarrow> fault + short list" where
  "getSmoothed_loop s start len i result =
     (if i < len then
        (if capacity s = 0 then Inl DivisionByZero
         else
           let k = size_t (start + i) mod capacity s
           in if length (buffer s) \<le> k then Inl OutOfBounds
              else getSmoothed_loop s start len (i + 1) (result @ [buffer s ! k]))
      else Inr result)"
  by pat_completeness auto
termination
  by (relation "measure (\<lambda>(s, start, len, i, result). len - i)") auto
declare getSmoothed_loop.simps [simp del]

definition getSmoothed :: "nat \<Rightarrow> CircularBuffer \<Rightarrow> fault + short list" where
  "getSmoothed len s =
     (if count s < len then Inr []
      else
        let start = (if len \<le> head s then head s - len
                     else size_t_sub (capacity s) (len - head s))
        in getSmoothed_loop s start len 0 [])"

text \<open>
  The states the program can be in: \<open>CircularBuffer\<close> has private fields, so a state
  is whatever the constructor built and \<open>push\<close> turned it into.
\<close>

inductive rb_reachable :: "CircularBuffer \<Rightarrow> bool" where
  rb_new: "CircularBuffer_new sz = Inr s \<Longrightarrow> rb_reachable s"
| rb_push: "rb_reachable s \<Longrightarrow> push xs s = Inr s' \<Longrightarrow> rb_reachable s'"

text \<open>
  Representation invariant: \<open>s\<close> holds the history \<open>h\<close> (all samples pushed since
  construction, oldest first). The \<open>i\<close>-th sample pushed lives in slot \<open>i mod capacity\<close>
  as long as it is among the last \<open>capacity\<close> ones.
\<close>

definition rb_holds :: "CircularBuffer \<Rightarrow> short list \<Rightarrow> bool" where
  "rb_holds s h \<longleftrightarrow>
     capacity s \<le> vector_max_size \<and>
     length (buffer s) = capacity s \<and>
     (capacity s = 0 \<longrightarrow> h = []) \<and>
     head s = length h mod capacity s \<and>
     count s = min (length h) (capacity s) \<and>
     tail s = (length h - count s) mod capacity s \<and>
     (\<forall>i < length h. length h \<le> i + capacity s \<longrightarrow> buffer s ! (i mod capacity s) = h ! i)"

section \<open>IEEE 754 binary floating point\<close>

text \<open>
  \<open>float\<close> and \<open>double\<close> are IEEE 754 binary32 and binary64, every operation rounded
  to nearest, ties to even, each operation rounded on its own (the evaluation of
  \<open>FLT_EVAL_METHOD 0\<close>, no fused multiply-add). A value is a finite real number (one
  the format can represent, when it comes out of \<open>fround\<close>), an infinity or NaN.
  The sign of zero is not represented: the program never divides by a zero it
  computed and never inspects a sign bit, so no result depends on it.
\<close>

datatype fval = Fin real | PInf | NInf | NaN

text \<open>
  \<open>ilog2 x\<close> is the binary exponent of \<open>x > 0\<close>: the \<open>e\<close> with
  \<open>2 ^ e \<le> x < 2 ^ (e + 1)\<close> (lemma \<open>ilog2_bounds\<close>), computed from the bit length
  of an integer next to \<open>x\<close> or to \<open>1 / x\<close>.
\<close>

definition ilog2 :: "real \<Rightarrow> int" where
  "ilog2 x = (if 1 \<le> x then bitlen \<lfloor>x\<rfloor> - 1 else - bitlen (\<lceil>1 / x\<rceil> - 1))"

text \<open>
  Round to the nearest integer, ties to the even one: \<open>rne_pick y f\<close> chooses between
  \<open>f = \<lfloor>y\<rfloor>\<close> and \<open>f + 1\<close>.
\<close>

definition rne_pick :: "real \<Rightarrow> int \<Rightarrow> int" where
  "rne_pick y f =
     (if y - of_int f < 1 / 2 then f
      else if 1 / 2 < y - of_int f then f + 1
      else if even f then f else f + 1)"

definition rne :: "real \<Rightarrow> int" where
  "rne y = rne_pick y \<lfloor>y\<rfloor>"

text \<open>
  \<open>fround p emn emx x\<close> rounds the real \<open>x\<close> to the format with \<open>p\<close> significand bits
  and exponents of normal numbers from \<open>emn\<close> to \<open>emx\<close>. The grid around \<open>x\<close> has the
  spacing \<open>q = 2 ^ (max (ilog2 \<bar>x\<bar>) emn - p + 1)\<close> (the subnormal spacing below
  \<open>2 ^ emn\<close>); \<open>x / q\<close> is rounded to an integer; a result of magnitude
  \<open>2 ^ (emx + 1)\<close> or more overflows to an infinity. The three functions pass the
  exponent, the spacing and the rounded value on as arguments, so that each is
  evaluated once.
\<close>

definition fround_r :: "int \<Rightarrow> real \<Rightarrow> real \<Rightarrow> fval" where
  "fround_r emx x r =
     (if 2 powi (emx + 1) \<le> \<bar>r\<bar> then (if 0 < x then PInf else NInf) else Fin r)"

definition fround_q :: "int \<Rightarrow> real \<Rightarrow> real \<Rightarrow> fval" where
  "fround_q emx x q = fround_r emx x (of_int (rne (x / q)) * q)"

definition fround :: "nat \<Rightarrow> int \<Rightarrow> int \<Rightarrow> real \<Rightarrow> fval" where
  "fround p emn emx x =
     (if x = 0 then Fin 0
      else fround_q emx x (2 powi (max (ilog2 \<bar>x\<bar>) emn - int p + 1)))"

definition f32 :: "real \<Rightarrow> fval" where
  "f32 = fround 24 (- 126) 127"

definition f64 :: "real \<Rightarrow> fval" where
  "f64 = fround 53 (- 1022) 1023"

fun fneg :: "fval \<Rightarrow> fval" where
  "fneg (Fin a) = Fin (- a)"
| "fneg PInf = NInf"
| "fneg NInf = PInf"
| "fneg NaN = NaN"

text \<open>
  The arithmetic operations, over any rounding function \<open>rnd\<close> (\<open>f32\<close> or \<open>f64\<close>), with
  the IEEE results for infinities and NaN.
\<close>

fun fadd :: "(real \<Rightarrow> fval) \<Rightarrow> fval \<Rightarrow> fval \<Rightarrow> fval" where
  "fadd rnd (Fin a) (Fin b) = rnd (a + b)"
| "fadd rnd NaN _ = NaN"
| "fadd rnd _ NaN = NaN"
| "fadd rnd PInf NInf = NaN"
| "fadd rnd NInf PInf = NaN"
| "fadd rnd PInf _ = PInf"
| "fadd rnd _ PInf = PInf"
| "fadd rnd NInf _ = NInf"
| "fadd rnd _ NInf = NInf"

definition fsub :: "(real \<Rightarrow> fval) \<Rightarrow> fval \<Rightarrow> fval \<Rightarrow> fval" where
  "fsub rnd a b = fadd rnd a (fneg b)"

fun fsgn_inf :: "bool \<Rightarrow> fval" where
  "fsgn_inf True = PInf"
| "fsgn_inf False = NInf"

fun fmul :: "(real \<Rightarrow> fval) \<Rightarrow> fval \<Rightarrow> fval \<Rightarrow> fval" where
  "fmul rnd (Fin a) (Fin b) = rnd (a * b)"
| "fmul rnd NaN _ = NaN"
| "fmul rnd _ NaN = NaN"
| "fmul rnd (Fin a) PInf = (if a = 0 then NaN else fsgn_inf (0 < a))"
| "fmul rnd (Fin a) NInf = (if a = 0 then NaN else fsgn_inf (a < 0))"
| "fmul rnd PInf (Fin b) = (if b = 0 then NaN else fsgn_inf (0 < b))"
| "fmul rnd NInf (Fin b) = (if b = 0 then NaN else fsgn_inf (b < 0))"
| "fmul rnd PInf PInf = PInf"
| "fmul rnd NInf NInf = PInf"
| "fmul rnd PInf NInf = NInf"
| "fmul rnd NInf PInf = NInf"

text \<open>
  Division. A zero divisor is \<open>+0\<close> (the only zero divisors of the program are
  converted unsigned counts): \<open>0 / 0\<close> is NaN, \<open>a / 0\<close> an infinity of the sign of \<open>a\<close>.
\<close>

fun fdiv :: "(real \<Rightarrow> fval) \<Rightarrow> fval \<Rightarrow> fval \<Rightarrow> fval" where
  "fdiv rnd (Fin a) (Fin b) =
     (if b = 0 then (if a = 0 then NaN else fsgn_inf (0 < a)) else rnd (a / b))"
| "fdiv rnd NaN _ = NaN"
| "fdiv rnd _ NaN = NaN"
| "fdiv rnd (Fin a) _ = Fin 0"
| "fdiv rnd PInf (Fin b) = fsgn_inf (0 \<le> b)"
| "fdiv rnd NInf (Fin b) = fsgn_inf (b < 0)"
| "fdiv rnd _ _ = NaN"

text \<open>
  \<open>sqrt\<close> of \<open><cmath>\<close>: the correctly rounded square root, NaN for a negative
  argument.
\<close>

fun fsqrt :: "(real \<Rightarrow> fval) \<Rightarrow> fval \<Rightarrow> fval" where
  "fsqrt rnd (Fin a) = (if a < 0 then NaN else rnd (sqrt a))"
| "fsqrt rnd PInf = PInf"
| "fsqrt rnd _ = NaN"

text \<open>
  \<open>a < b\<close> on floating-point values: false as soon as one side is NaN.
\<close>

fun flt :: "fval \<Rightarrow> fval \<Rightarrow> bool" where
  "flt (Fin a) (Fin b) \<longleftrightarrow> a < b"
| "flt NaN _ \<longleftrightarrow> False"
| "flt _ NaN \<longleftrightarrow> False"
| "flt NInf NInf \<longleftrightarrow> False"
| "flt NInf _ \<longleftrightarrow> True"
| "flt PInf _ \<longleftrightarrow> False"
| "flt _ PInf \<longleftrightarrow> True"
| "flt _ NInf \<longleftrightarrow> False"

text \<open>
  \<open>std::min(a, b)\<close> is \<open>(b < a) ? b : a\<close> and \<open>std::max(a, b)\<close> is \<open>(a < b) ? b : a\<close>.
\<close>

definition std_min :: "fval \<Rightarrow> fval \<Rightarrow> fval" where
  "std_min a b = (if flt b a then b else a)"

definition std_max :: "fval \<Rightarrow> fval \<Rightarrow> fval" where
  "std_max a b = (if flt a b then b else a)"

text \<open>
  Conversions: \<open>int\<close> to \<open>float\<close>, \<open>int\<close> to \<open>double\<close>, \<open>unsigned long\<close> to \<open>double\<close>,
  \<open>double\<close> to \<open>float\<close>.
\<close>

definition float_of_int :: "int \<Rightarrow> fval" where
  "float_of_int i = f32 (of_int i)"

definition double_of_int :: "int \<Rightarrow> fval" where
  "double_of_int i = f64 (of_int i)"

definition double_of_ulong :: "nat \<Rightarrow> fval" where
  "double_of_ulong n = f64 (of_nat n)"

fun float_of_double :: "fval \<Rightarrow> fval" where
  "float_of_double (Fin a) = f32 a"
| "float_of_double v = v"

text \<open>
  \<open>static_cast<short>\<close> of a \<open>float\<close> discards the fractional part (truncation
  towards zero); the behaviour is undefined when the truncated value does not fit
  into \<open>short\<close>, and for an infinity or NaN.
\<close>

definition trunc :: "real \<Rightarrow> int" where
  "trunc x = (if 0 \<le> x then \<lfloor>x\<rfloor> else \<lceil>x\<rceil>)"

fun short_of_float :: "fval \<Rightarrow> fault + short" where
  "short_of_float (Fin a) =
     (if - 32768 \<le> trunc a \<and> trunc a \<le> 32767 then Inr (word_of_int (trunc a))
      else Inl CastOutOfRange)"
| "short_of_float _ = Inl CastOutOfRange"

section \<open>Configuration constants\<close>

definition FRAMES_PER_BUFFER :: nat where "FRAMES_PER_BUFFER = 512"

definition NOISE_GATE_THRESHOLD :: int where "NOISE_GATE_THRESHOLD = 500"

definition AUDIO_BUFFER_SIZE :: nat where "AUDIO_BUFFER_SIZE = 8192"

definition AGC_TARGET_LEVEL :: int where "AGC_TARGET_LEVEL = 8000"

definition AGC_ADJUSTMENT_RATE :: fval where "AGC_ADJUSTMENT_RATE = f32 (1 / 10)"

section \<open>Noise gate\<close>

text \<open>
  \<open>isAudioAboveNoiseGate(audio_data, frame_count)\<close>. The block
  \<open>audio_data[0 .. frame_count-1]\<close> is the list. The loop adds to the \<open>double\<close> \<open>rms\<close> the
  product \<open>audio_data[i] * audio_data[i]\<close>, computed in \<open>int\<close> (at most \<open>2 ^ 30\<close>, so
  it cannot overflow) and converted to \<open>double\<close>.
\<close>

function isAudioAboveNoiseGate_loop :: "short list \<Rightarrow> nat \<Rightarrow> fval \<Rightarrow> fval" where
  "isAudioAboveNoiseGate_loop audio_data i rms =
     (if i < length audio_data then
        isAudioAboveNoiseGate_loop audio_data (i + 1)
          (fadd f64 rms (double_of_int (sint (audio_data ! i) * sint (audio_data ! i))))
      else rms)"
  by pat_completeness auto
termination
  by (relation "measure (\<lambda>(audio_data, i, rms). length audio_data - i)") auto
declare isAudioAboveNoiseGate_loop.simps [simp del]

text \<open>
  \<open>rms = sqrt(rms / frame_count); return rms > NOISE_GATE_THRESHOLD;\<close>
\<close>

definition isAudioAboveNoiseGate :: "short list \<Rightarrow> bool" where
  "isAudioAboveNoiseGate audio_data =
     (let rms = isAudioAboveNoiseGate_loop audio_data 0 (f64 0);
          rms = fsqrt f64 (fdiv f64 rms (double_of_ulong (length audio_data)))
      in flt (double_of_int NOISE_GATE_THRESHOLD) rms)"

section \<open>High-pass filter\<close>

text \<open>
  \<open>const float alpha = 0.95f\<close>
\<close>

definition alpha :: fval where "alpha = f32 (95 / 100)"

text \<open>\<open>static_cast<short>(std::max(-32768.0f, std::min(32767.0f, v)))\<close>\<close>

definition clamp_to_short :: "fval \<Rightarrow> fault + short" where
  "clamp_to_short v = short_of_float (std_max (f32 (- 32768)) (std_min (f32 32767) v))"

text \<open>
  The loop of \<open>applyHighPassFilter\<close> from index \<open>i\<close> on: it reads \<open>audio_data[i]\<close>,
  computes \<open>output\<close>, updates the two state variables and overwrites
  \<open>audio_data[i]\<close> with the clamped output. The result is the block as left in place
  and the final \<open>prev_input\<close> and \<open>prev_output\<close> (passed by reference in the source).
\<close>

function applyHighPassFilter_loop ::
  "short list \<Rightarrow> nat \<Rightarrow> fval \<Rightarrow> fval \<Rightarrow> fault + short list \<times> fval \<times> fval" where
  "applyHighPassFilter_loop audio_data i prev_input prev_output =
     (if i < length audio_data then
        let input = float_of_int (sint (audio_data ! i));
            output = fmul f32 alpha (fsub f32 (fadd f32 prev_output input) prev_input)
        in case clamp_to_short output of
             Inl e \<Rightarrow> Inl e
           | Inr v \<Rightarrow> applyHighPassFilter_loop (audio_data[i := v]) (i + 1) input output
      else Inr (audio_data, prev_input, prev_output))"
  by pat_completeness auto
termination
  by (relation "measure (\<lambda>(audio_data, i, prev_input, prev_output). length audio_data - i)")
     auto
declare applyHighPassFilter_loop.simps [simp del]

definition applyHighPassFilter ::
  "short list \<Rightarrow> fval \<Rightarrow> fval \<Rightarrow> fault + short list \<times> fval \<times> fval" where
  "applyHighPassFilter audio_data prev_input prev_output =
     applyHighPassFilter_loop audio_data 0 prev_input prev_output"

section \<open>Automatic gain control\<close>

text \<open>
  \<open>applyAGC\<close>: the loop that adds up \<open>abs(audio_data[i])\<close> (an \<open>int\<close>) in the \<open>double\<close>
  \<open>current_level\<close>, and the loop that scales the block in place by \<open>new_gain\<close>.
\<close>

function applyAGC_level_loop :: "short list \<Rightarrow> nat \<Rightarrow> fval \<Rightarrow> fval" where
  "applyAGC_level_loop audio_data i current_level =
     (if i < length audio_data then
        applyAGC_level_loop audio_data (i + 1)
          (fadd f64 current_level (double_of_int \<bar>sint (audio_data ! i)\<bar>))
      else current_level)"
  by pat_completeness auto
termination
  by (relation "measure (\<lambda>(audio_data, i, current_level). length audio_data - i)") auto
declare applyAGC_level_loop.simps [simp del]

function applyAGC_gain_loop :: "short list \<Rightarrow> nat \<Rightarrow> fval \<Rightarrow> fault + short list" where
  "applyAGC_gain_loop audio_data i new_gain =
     (if i < length audio_data then
        let sample = fmul f32 (float_of_int (sint (audio_data ! i))) new_gain
        in case clamp_to_short sample of
             Inl e \<Rightarrow> Inl e
           | Inr v \<Rightarrow> applyAGC_gain_loop (audio_data[i := v]) (i + 1) new_gain
      else Inr audio_data)"
  by pat_completeness auto
termination
  by (relation "measure (\<lambda>(audio_data, i, new_gain). length audio_data - i)") auto
declare applyAGC_gain_loop.simps [simp del]

text \<open>
  \<open>applyAGC(audio_data, frame_count)\<close>. The atomic \<open>g_current_gain\<close> is passed in and
  returned. \<open>desired_gain\<close> is a \<open>double\<close> quotient converted to \<open>float\<close>.
\<close>

definition applyAGC :: "short list \<Rightarrow> fval \<Rightarrow> fault + short list \<times> fval" where
  "applyAGC audio_data g_current_gain =
     (let current_level =
            fdiv f64 (applyAGC_level_loop audio_data 0 (f64 0))
                     (double_of_ulong (length audio_data));
          current_gain = g_current_gain
      in if flt (double_of_int 0) current_level then
           let desired_gain =
                 float_of_double (fdiv f64 (double_of_int AGC_TARGET_LEVEL) current_level);
               new_gain =
                 fadd f32 current_gain
                   (fmul f32 (fsub f32 desired_gain current_gain) AGC_ADJUSTMENT_RATE);
               new_gain = std_max (f32 (1 / 10)) (std_min (f32 10) new_gain)
           in case applyAGC_gain_loop audio_data 0 new_gain of
                Inl e \<Rightarrow> Inl e
              | Inr audio_data' \<Rightarrow> Inr (audio_data', new_gain)
         else Inr (audio_data, g_current_gain))"

section \<open>The PortAudio callback\<close>

datatype PaStreamCallbackResult = paContinue | paComplete

text \<open>
  What a callback does to the outside world is recorded in the \<open>trace\<close> of the
  session: a waveform handed to \<open>vosk_recognizer_accept_waveform_s\<close>, a line printed,
  and (as a ghost event) the fallback branch \<open>smoothed_audio = audio_data\<close> being taken.
\<close>

datatype event = Submitted "short list" | FallbackUsed | Printed string

text \<open>
  The state a callback can see and change: the globals of the program, the two
  static variables of \<open>preprocessAudio\<close>, the recognizer behind \<open>userData\<close>, and the
  trace.
\<close>

record 'r session =
  g_request_stop :: bool
  g_last_partial_result_json :: string
  g_current_gain :: fval
  g_audio_buffer :: CircularBuffer
  prev_input :: fval
  prev_output :: fval
  recognizer :: 'r
  trace :: "event list"

text \<open>
  The Vosk recognizer is outside the program: its three functions are parameters.
  A \<open>char*\<close> result is \<open>None\<close> for a null pointer.
\<close>

record 'r vosk_api =
  vosk_recognizer_accept_waveform_s :: "'r \<Rightarrow> short list \<Rightarrow> int \<times> 'r"
  vosk_recognizer_partial_result :: "'r \<Rightarrow> string option \<times> 'r"
  vosk_recognizer_result :: "'r \<Rightarrow> string option \<times> 'r"

text \<open>
  \<open>preprocessAudio\<close>: the filter on the static state, then the gain control.
\<close>

definition preprocessAudio :: "short list \<Rightarrow> 'r session \<Rightarrow> fault + short list \<times> 'r session" where
  "preprocessAudio audio_data st =
     (case applyHighPassFilter audio_data (prev_input st) (prev_output st) of
        Inl e \<Rightarrow> Inl e
      | Inr (filtered, prev_input', prev_output') \<Rightarrow>
          (case applyAGC filtered (g_current_gain st) of
             Inl e \<Rightarrow> Inl e
           | Inr (scaled, gain') \<Rightarrow>
               Inr (scaled, st\<lparr>prev_input := prev_input', prev_output := prev_output',
                              g_current_gain := gain'\<rparr>)))"

text \<open>
  \<open>s.find(sub) != std::string::npos\<close>
\<close>

fun starts_with :: "string \<Rightarrow> string \<Rightarrow> bool" where
  "starts_with s [] = True"
| "starts_with [] (c # cs) = False"
| "starts_with (x # xs) (c # cs) = (x = c \<and> starts_with xs cs)"

fun string_find :: "string \<Rightarrow> string \<Rightarrow> bool" where
  "string_find [] sub = starts_with [] sub"
| "string_find (x # xs) sub = (starts_with (x # xs) sub \<or> string_find xs sub)"

definition empty_partial :: string where
  \<open>empty_partial = ''"partial" : ""''\<close>

definition empty_text :: string where
  \<open>empty_text = ''"text" : ""''\<close>

text \<open>The partial-result branch, after \<open>vosk_recognizer_partial_result\<close> returned.\<close>

definition on_partial :: "string option \<Rightarrow> 'r session \<Rightarrow> 'r session" where
  "on_partial partial_json_cstr st =
     (case partial_json_cstr of
        None \<Rightarrow> st
      | Some current_partial_json \<Rightarrow>
          if 0 < length current_partial_json
             \<and> \<not> string_find current_partial_json empty_partial
             \<and> current_partial_json \<noteq> g_last_partial_result_json st
             \<and> 20 < length current_partial_json
          then st\<lparr>trace := trace st @ [Printed (''Partial: '' @ current_partial_json)],
                  g_last_partial_result_json := current_partial_json\<rparr>
          else st)"

text \<open>The final-result branch, after \<open>vosk_recognizer_result\<close> returned.\<close>

definition on_final :: "string option \<Rightarrow> 'r session \<Rightarrow> 'r session" where
  "on_final final_result_json_cstr st =
     (let st1 = (case final_result_json_cstr of
                   None \<Rightarrow> st
                 | Some final_result \<Rightarrow>
                     if 0 < length final_result \<and> \<not> string_find final_result empty_text
                     then st\<lparr>trace := trace st @ [Printed (''Final:   '' @ final_result)]\<rparr>
                     else st)
      in st1\<lparr>g_last_partial_result_json := []\<rparr>)"

text \<open>
  The second half of \<open>paCallback\<close>: submit the waveform and act on the status,
  \<open>0\<close> for a partial result, positive for a final one, negative for an error.
\<close>

definition feed_recognizer :: "'r vosk_api \<Rightarrow> short list \<Rightarrow> 'r session \<Rightarrow> 'r session" where
  "feed_recognizer api smoothed_audio st =
     (case vosk_recognizer_accept_waveform_s api (recognizer st) smoothed_audio of
        (vosk_status, r1) \<Rightarrow>
          let st1 = st\<lparr>recognizer := r1, trace := trace st @ [Submitted smoothed_audio]\<rparr>
          in if vosk_status = 0 then
               (case vosk_recognizer_partial_result api r1 of
                  (partial_json_cstr, r2) \<Rightarrow> on_partial partial_json_cstr (st1\<lparr>recognizer := r2\<rparr>))
             else if 0 < vosk_status then
               (case vosk_recognizer_result api r1 of
                  (final_result_json_cstr, r2) \<Rightarrow> on_final final_result_json_cstr (st1\<lparr>recognizer := r2\<rparr>))
             else st1)"

text \<open>
  \<open>paCallback\<close>. \<open>inputBuffer\<close> is \<open>None\<close> for a null pointer, else the block of
  \<open>framesPerBuffer\<close> samples. The block is copied, gated, preprocessed in place,
  pushed into \<open>g_audio_buffer\<close>, and \<open>getSmoothed(framesPerBuffer)\<close> is handed to
  the recognizer, or the processed block itself when that is empty.
\<close>

definition paCallback ::
  "'r vosk_api \<Rightarrow> short list option \<Rightarrow> 'r session \<Rightarrow> fault + PaStreamCallbackResult \<times> 'r session" where
  "paCallback api inputBuffer st =
     (if g_request_stop st then Inr (paComplete, st)
      else case inputBuffer of
        None \<Rightarrow> Inr (paContinue, st)
      | Some input_audio \<Rightarrow>
          if \<not> isAudioAboveNoiseGate input_audio then Inr (paContinue, st)
          else
            (case preprocessAudio input_audio st of
               Inl e \<Rightarrow> Inl e
             | Inr (audio_data, st1) \<Rightarrow>
                 (case push audio_data (g_audio_buffer st1) of
                    Inl e \<Rightarrow> Inl e
                  | Inr buf \<Rightarrow>
                      (case getSmoothed (length input_audio) buf of
                         Inl e \<Rightarrow> Inl e
                       | Inr smoothed \<Rightarrow>
                           let st2 = st1\<lparr>g_audio_buffer := buf\<rparr>
                           in if smoothed = []
                              then Inr (paContinue,
                                        feed_recognizer api audio_data
                                          (st2\<lparr>trace := trace st2 @ [FallbackUsed]\<rparr>))
                              else Inr (paContinue, feed_recognizer api smoothed st2)))))"

section \<open>Quantities used in the statements and proofs\<close>

text \<open>The quantum of the rounding grid at \<open>x\<close>.\<close>

definition fexp :: "nat \<Rightarrow> int \<Rightarrow> real \<Rightarrow> int" where
  "fexp p emn x = max (ilog2 \<bar>x\<bar>) emn - int p + 1"

text \<open>
  The rounded value before the overflow test.
\<close>

definition rv :: "nat \<Rightarrow> int \<Rightarrow> real \<Rightarrow> real" where
  "rv p emn x = of_int (rne (x / 2 powi fexp p emn x)) * 2 powi fexp p emn x"

text \<open>\<open>c\<close> is a value of the format.\<close>

definition is_float :: "(real \<Rightarrow> fval) \<Rightarrow> real \<Rightarrow> bool" where
  "is_float rnd c \<longleftrightarrow> rnd c = Fin c"

text \<open>What the clamp and the cast store, as a total function.\<close>

fun stored_sample :: "fval \<Rightarrow> short" where
  "stored_sample (Fin y) = word_of_int (trunc (max (- 32768) (min 32767 y)))"
| "stored_sample PInf = 32767"
| "stored_sample NInf = - 32768"
| "stored_sample NaN = 32767"

text \<open>
  The value of \<open>output\<close> in one iteration of the filter loop, from the state
  \<open>(u, w)\<close> of \<open>(prev_input, prev_output)\<close> and the sample \<open>x\<close>.
\<close>

definition hp_output :: "fval \<Rightarrow> fval \<Rightarrow> short \<Rightarrow> fval" where
  "hp_output u w x =
     fmul f32 alpha (fsub f32 (fadd f32 w (float_of_int (sint x))) u)"

text \<open>
  The filter as a recursion over the block.
\<close>

fun hp_run :: "short list \<Rightarrow> fval \<Rightarrow> fval \<Rightarrow> short list \<times> fval \<times> fval" where
  "hp_run [] u w = ([], u, w)"
| "hp_run (x # xs) u w =
     (case hp_run xs (float_of_int (sint x)) (hp_output u w x) of
        (out, st) \<Rightarrow> (stored_sample (hp_output u w x) # out, st))"

text \<open>The recurrence of the specification: \<open>y[n]\<close>, by index.\<close>

fun hp_y :: "short list \<Rightarrow> fval \<Rightarrow> fval \<Rightarrow> nat \<Rightarrow> fval" where
  "hp_y xs u w 0 = hp_output u w (xs ! 0)"
| "hp_y xs u w (Suc n) =
     hp_output (float_of_int (sint (xs ! n))) (hp_y xs u w n) (xs ! Suc n)"

definition hp_final :: "short list \<Rightarrow> fval \<Rightarrow> fval \<Rightarrow> fval \<times> fval" where
  "hp_final xs u w =
     (if xs = [] then (u, w)
      else (float_of_int (sint (last xs)), hp_y xs u w (length xs - 1)))"

text \<open>The sample the specification stores: \<open>clamp(round(y), -32768, 32767)\<close>.\<close>

definition spec_stored_sample :: "real \<Rightarrow> int" where
  "spec_stored_sample y = max (- 32768) (min 32767 (round y))"

text \<open>
  \<open>current_level\<close> and \<open>new_gain\<close> of \<open>applyAGC\<close>, as functions of the block and the
  gain read.
\<close>

definition agc_current_level :: "short list \<Rightarrow> fval" where
  "agc_current_level audio =
     fdiv f64 (foldl (\<lambda>l x. fadd f64 l (double_of_int \<bar>sint x\<bar>)) (Fin 0) audio)
              (double_of_ulong (length audio))"

definition agc_new_gain :: "fval \<Rightarrow> fval \<Rightarrow> fval" where
  "agc_new_gain lvl g =
     std_max (f32 (1 / 10)) (std_min (f32 10)
       (fadd f32 g (fmul f32 (fsub f32 (float_of_double (fdiv f64 (double_of_int AGC_TARGET_LEVEL) lvl)) g)
                      AGC_ADJUSTMENT_RATE)))"

text \<open>
  The gain is a finite number in \<open>[0.1, 10.0]\<close>.
\<close>

definition gain_in_range :: "fval \<Rightarrow> bool" where
  "gain_in_range g = (case g of Fin r \<Rightarrow> 1 / 10 \<le> r \<and> r \<le> 10 | _ \<Rightarrow> False)"

text \<open>
  \<open>std::atomic<float> g_current_gain(1.0f)\<close>
\<close>

definition g_current_gain_init :: fval where
  "g_current_gain_init = f32 1"

text \<open>
  A sequence of blocks run through \<open>applyAGC\<close>, the gain stored by one call read by
  the next.
\<close>

fun applyAGC_blocks :: "short list list \<Rightarrow> fval \<Rightarrow> fault + fval" where
  "applyAGC_blocks [] g = Inr g"
| "applyAGC_blocks (b # bs) g =
     (case applyAGC b g of Inl e \<Rightarrow> Inl e | Inr (b', g') \<Rightarrow> applyAGC_blocks bs g')"

definition sum_squares :: "short list \<Rightarrow> int" where
  "sum_squares xs = sum_list (map (\<lambda>x. sint x * sint x) xs)"

definition sum_abs :: "short list \<Rightarrow> int" where
  "sum_abs xs = sum_list (map (\<lambda>x. \<bar>sint x\<bar>) xs)"

text \<open>
  The RMS of the specification, \<open>sqrt(mean(sample_i^2))\<close>, as a real number.
\<close>

definition spec_rms :: "short list \<Rightarrow> real" where
  "spec_rms xs = sqrt ((\<Sum>x\<leftarrow>xs. (real_of_int (sint x))\<^sup>2) / real (length xs))"

text \<open>
  The level of the specification, \<open>mean(|sample_i|)\<close>, as a real number.
\<close>

definition spec_level :: "short list \<Rightarrow> real" where
  "spec_level xs = (\<Sum>x\<leftarrow>xs. \<bar>real_of_int (sint x)\<bar>) / real (length xs)"

text \<open>
  How often the fallback branch was taken, and the waveforms submitted to the
  recognizer, in order.
\<close>

definition fallbacks :: "'r session \<Rightarrow> nat" where
  "fallbacks st = length (filter (\<lambda>e. e = FallbackUsed) (trace st))"

definition submissions :: "'r session \<Rightarrow> short list list" where
  "submissions st = concat (map (\<lambda>e. case e of Submitted a \<Rightarrow> [a] | _ \<Rightarrow> []) (trace st))"

text \<open>
  The session at program start: the initial values of the globals and statics, and
  \<open>CircularBuffer g_audio_buffer(AUDIO_BUFFER_SIZE)\<close>.
\<close>

definition session_init :: "CircularBuffer \<Rightarrow> 'r \<Rightarrow> 'r session" where
  "session_init buf r =
     \<lparr>g_request_stop = False, g_last_partial_result_json = [],
      g_current_gain = g_current_gain_init, g_audio_buffer = buf,
      prev_input = f32 0, prev_output = f32 0, recognizer = r, trace = []\<rparr>"

text \<open>
  The sessions the program can reach: the stream is opened with
  \<open>FRAMES_PER_BUFFER\<close> frames per block, so every callback gets a block of that
  length; the console thread may set \<open>g_request_stop\<close> at any time.
\<close>

inductive session_reachable :: "'r vosk_api \<Rightarrow> 'r session \<Rightarrow> bool" for api where
  start: "CircularBuffer_new AUDIO_BUFFER_SIZE = Inr buf \<Longrightarrow>
          session_reachable api (session_init buf r)"
| quit: "session_reachable api st \<Longrightarrow> session_reachable api (st\<lparr>g_request_stop := True\<rparr>)"
| callback: "session_reachable api st \<Longrightarrow> length b = FRAMES_PER_BUFFER \<Longrightarrow>
             paCallback api (Some b) st = Inr (res, st') \<Longrightarrow> session_reachable api st'"

text \<open>
  What every reachable session satisfies.
\<close>

definition session_inv :: "'r session \<Rightarrow> bool" where
  "session_inv st \<longleftrightarrow>
     rb_reachable (g_audio_buffer st) \<and> capacity (g_audio_buffer st) = AUDIO_BUFFER_SIZE \<and>
     fallbacks st = 0"

text \<open>The calls the driver makes: none after a callback returned \<open>paComplete\<close>.\<close>

fun paCallback_run ::
  "'r vosk_api \<Rightarrow> short list option list \<Rightarrow> 'r session \<Rightarrow> fault + 'r session" where
  "paCallback_run api [] st = Inr st"
| "paCallback_run api (b # bs) st =
     (case paCallback api b st of
        Inl e \<Rightarrow> Inl e
      | Inr (res, st') \<Rightarrow> if res = paComplete then Inr st' else paCallback_run api bs st')"

text \<open>
  A recognizer that reports an error for every waveform, and the initial session
  with it: concrete inputs for the witnesses.
\<close>

definition null_api :: "unit vosk_api" where
  "null_api = \<lparr>vosk_recognizer_accept_waveform_s = (\<lambda>r a. (- 1, r)),
               vosk_recognizer_partial_result = (\<lambda>r. (None, r)),
               vosk_recognizer_result = (\<lambda>r. (None, r))\<rparr>"

definition session_start :: "unit session" where
  "session_start =
     session_init \<lparr>buffer = replicate AUDIO_BUFFER_SIZE 0, head = 0, tail = 0, count = 0,
                   capacity = AUDIO_BUFFER_SIZE\<rparr> ()"

text \<open>
  A block of 36028797019 samples: \<open>2 ^ 23\<close> times \<open>-32768\<close>, then ones.
\<close>

definition huge_block :: "short list" where
  "huge_block = replicate 8388608 (- 32768) @ replicate 36020408411 1"

section \<open>The end-to-end scenario: a constant block of amplitude 1000\<close>

text \<open>
  One step of the filter on the constant input 1000, from the state
  \<open>(1000, y)\<close>; \<open>n\<close> such steps, as the sum of the magnitudes stored and the last
  output; and the samples stored.
\<close>

definition dc_step :: "fval \<Rightarrow> fval" where
  "dc_step y = hp_output (Fin 1000) y 1000"

fun dc_run :: "nat \<Rightarrow> fval \<Rightarrow> int \<times> fval" where
  "dc_run 0 y = (0, y)"
| "dc_run (Suc n) y =
     (case dc_run n (dc_step y) of
        (s, z) \<Rightarrow> (\<bar>sint (stored_sample (dc_step y))\<bar> + s, z))"

fun dc_outs :: "nat \<Rightarrow> fval \<Rightarrow> short list" where
  "dc_outs 0 y = []"
| "dc_outs (Suc n) y = stored_sample (dc_step y) # dc_outs n (dc_step y)"

text \<open>The block of the end-to-end scenario: 512 samples of the constant 1000.\<close>

definition dc_block :: "short list" where
  "dc_block = replicate FRAMES_PER_BUFFER 1000"

text \<open>
  The session after the first block of the scenario, as far as the filter and the
  gain go.
\<close>

definition dc_saturated :: "'r session \<Rightarrow> bool" where
  "dc_saturated st \<longleftrightarrow>
     session_inv st \<and> \<not> g_request_stop st \<and>
     prev_input st = Fin 1000 \<and> prev_output st = Fin (19 / 32768) \<and>
     g_current_gain st = Fin 10"

text \<open>The gain after \<open>k\<close> callbacks on the block, from the initial session.\<close>

definition gain_after :: "nat \<Rightarrow> fval" where
  "gain_after k =
     (case paCallback_run null_api (replicate k (Some dc_block)) session_start of
        Inl e \<Rightarrow> NaN
      | Inr st \<Rightarrow> g_current_gain st)"

text \<open>
  A block of 288230376190 samples: \<open>2 ^ 26\<close> times \<open>-32768\<close>, then \<open>2 ^ 20\<close> times 3, then
  zeros.
\<close>

definition leaky_block :: "short list" where
  "leaky_block =
     replicate 67108864 (- 32768) @ replicate 1048576 3 @ replicate 288162218750 0"

section \<open>Ring buffer: the representation invariant\<close>

lemma rb_holds_new:
  "CircularBuffer_new sz = Inr s \<Longrightarrow> rb_holds s []"
  by (auto simp: CircularBuffer_new_def rb_holds_def split: if_splits)

lemma vector_max_size_lt: "vector_max_size < 2 ^ 63"
  by (simp add: vector_max_size_def)

lemma size_t_small: "n < 2 ^ 64 \<Longrightarrow> size_t n = n"
  by (simp add: size_t_def)

lemma mod_neq_aux:
  fixes i L c :: nat
  assumes "i < L" "L < i + c"
  shows "i mod c \<noteq> L mod c"
proof
  assume "i mod c = L mod c"
  then have "c dvd (L - i)" using assms(1) by (metis less_imp_le_nat mod_eq_dvd_iff_nat)
  moreover have "0 < L - i" "L - i < c" using assms by auto
  ultimately show False by (meson dvd_imp_le not_le)
qed

lemma push_one_holds:
  assumes "rb_holds s h" "0 < capacity s"
  shows "\<exists>s'. push_one x s = Inr s' \<and> rb_holds s' (h @ [x]) \<and> capacity s' = capacity s"
proof -
  let ?c = "capacity s" and ?L = "length h"
  from assms have c: "?c \<le> vector_max_size" and lb: "length (buffer s) = ?c"
    and hd: "head s = ?L mod ?c" and cnt: "count s = min ?L ?c"
    and tl: "tail s = (?L - count s) mod ?c"
    and cont: "\<And>i. i < ?L \<Longrightarrow> ?L \<le> i + ?c \<Longrightarrow> buffer s ! (i mod ?c) = h ! i"
    by (auto simp: rb_holds_def)
  have c64: "?c < 2 ^ 63" using c vector_max_size_lt by simp
  have hlt: "head s < ?c" using hd assms(2) by simp
  have h1: "size_t (head s + 1) = head s + 1" using hlt c64 by (intro size_t_small) simp
  have c1: "size_t (count s + 1) = count s + 1" using cnt c64 by (intro size_t_small) simp
  have tlt: "tail s < ?c" using tl assms(2) by simp
  have t1: "size_t (tail s + 1) = tail s + 1" using tlt c64 by (intro size_t_small) simp
  have hd': "(head s + 1) mod ?c = (?L + 1) mod ?c"
    using hd by (simp add: mod_Suc_eq)
  show ?thesis
  proof (cases "count s < ?c")
    case True
    then have Ll: "?L < ?c" using cnt by simp
    have "push_one x s = Inr (s\<lparr>buffer := (buffer s)[head s := x],
                   head := (head s + 1) mod ?c, count := count s + 1\<rparr>)"
      using True hlt lb assms(2) h1 c1 by (simp add: push_one_def Let_def)
    moreover have "rb_holds (s\<lparr>buffer := (buffer s)[head s := x],
                   head := (head s + 1) mod ?c, count := count s + 1\<rparr>) (h @ [x])"
      unfolding rb_holds_def using c lb assms(2) hd' cnt Ll tl hd cont
      by (auto simp: nth_append nth_list_update)
    ultimately show ?thesis by simp
  next
    case False
    then have Ll: "?c \<le> ?L" and cc: "count s = ?c" using cnt by simp_all
    have "push_one x s = Inr (s\<lparr>buffer := (buffer s)[head s := x],
                   head := (head s + 1) mod ?c, tail := (tail s + 1) mod ?c\<rparr>)"
      using False hlt lb assms(2) h1 t1 by (simp add: push_one_def Let_def)
    moreover have "rb_holds (s\<lparr>buffer := (buffer s)[head s := x],
                   head := (head s + 1) mod ?c, tail := (tail s + 1) mod ?c\<rparr>) (h @ [x])"
    proof -
      let ?b = "(buffer s)[head s := x]"
      have ct: "?b ! (i mod ?c) = (h @ [x]) ! i"
        if "i < length (h @ [x])" "length (h @ [x]) \<le> i + ?c" for i
      proof (cases "i = ?L")
        case True
        then show ?thesis using hd hlt lb by simp
      next
        case False
        then have il: "i < ?L" and li: "?L < i + ?c" using that by auto
        then have "i mod ?c \<noteq> head s" using mod_neq_aux hd by metis
        then have "?b ! (i mod ?c) = buffer s ! (i mod ?c)" by simp
        also have "\<dots> = h ! i" using cont il li by simp
        finally show ?thesis using il by (simp add: nth_append)
      qed
      have tl': "(tail s + 1) mod ?c = (length (h @ [x]) - ?c) mod ?c"
        using tl cc Ll by (simp add: mod_Suc_eq Suc_diff_le)
      show ?thesis
        unfolding rb_holds_def using c lb assms(2) hd' cc Ll tl' ct
        by simp
    qed
    ultimately show ?thesis by simp
  qed
qed

lemma mod_add_cancel_nat:
  fixes a b k c :: nat
  assumes "(a + k) mod c = (b + k) mod c"
  shows "a mod c = b mod c"
proof -
  from assms have "int ((a + k) mod c) = int ((b + k) mod c)" by simp
  then have "(int a + int k) mod int c = (int b + int k) mod int c"
    by (simp add: zmod_int)
  then have "int c dvd (int a + int k) - (int b + int k)"
    by (simp only: mod_eq_dvd_iff)
  then have "int c dvd int a - int b" by simp
  then have "int a mod int c = int b mod int c"
    by (simp only: mod_eq_dvd_iff)
  then have "int (a mod c) = int (b mod c)" by (simp add: zmod_int)
  then show ?thesis by simp
qed

lemma push_holds:
  assumes "rb_holds s h" "0 < capacity s"
  shows "\<exists>s'. push xs s = Inr s' \<and> rb_holds s' (h @ xs) \<and> capacity s' = capacity s"
  using assms
proof (induction xs arbitrary: s h)
  case Nil
  then show ?case by simp
next
  case (Cons x xs)
  from push_one_holds [OF Cons.prems, of x] obtain s1 where
    s1: "push_one x s = Inr s1" "rb_holds s1 (h @ [x])" "capacity s1 = capacity s"
    by blast
  from Cons.IH [OF s1(2)] s1(3) Cons.prems(2) obtain s' where
    "push xs s1 = Inr s'" "rb_holds s' ((h @ [x]) @ xs)" "capacity s' = capacity s1"
    by auto
  with s1 show ?case by simp
qed

lemma push_capacity0:
  assumes "rb_holds s h" "capacity s = 0"
  shows "push xs s = (if xs = [] then Inr s else Inl OutOfBounds)"
  using assms by (cases xs) (auto simp: push_one_def rb_holds_def)

lemma rb_reachable_holds: "rb_reachable s \<Longrightarrow> \<exists>h. rb_holds s h"
proof (induction rule: rb_reachable.induct)
  case (rb_new sz s)
  then show ?case using rb_holds_new by blast
next
  case (rb_push s xs s')
  then obtain h where h: "rb_holds s h" by blast
  show ?case
  proof (cases "capacity s = 0")
    case True
    with push_capacity0 [OF h True, of xs] rb_push.hyps(2) h show ?thesis
      by (auto split: if_splits)
  next
    case False
    with push_holds [OF h, of xs] rb_push.hyps(2) show ?thesis by auto
  qed
qed

lemma getSmoothed_loop_holds:
  assumes "rb_holds s h" "0 < capacity s" "n \<le> count s" "i \<le> n"
    and "(start + n) mod capacity s = length h mod capacity s"
    and "start + n < 2 ^ 64"
  shows "getSmoothed_loop s start n i acc = Inr (acc @ drop (length h - n + i) h)"
  using assms(4)
proof (induction "n - i" arbitrary: i acc)
  case 0
  then have "i = n" by simp
  moreover have "n \<le> length h" using assms(1,3) by (simp add: rb_holds_def)
  ultimately show ?case by (simp add: getSmoothed_loop.simps)
next
  case (Suc d)
  let ?c = "capacity s" and ?L = "length h"
  from Suc have il: "i < n" by simp
  from assms have lb: "length (buffer s) = ?c" and nL: "n \<le> ?L" and nc: "n \<le> ?c"
    and cont: "\<And>j. j < ?L \<Longrightarrow> ?L \<le> j + ?c \<Longrightarrow> buffer s ! (j mod ?c) = h ! j"
    by (auto simp: rb_holds_def)
  let ?j = "?L - n + i"
  have st: "size_t (start + i) = start + i" using assms(6) il by (intro size_t_small) simp
  have "(start + i + (n - i)) mod ?c = (?j + (n - i)) mod ?c"
    using assms(5) il nL by simp
  then have km: "(start + i) mod ?c = ?j mod ?c"
    by (rule mod_add_cancel_nat)
  have kl: "\<not> ?c \<le> (start + i) mod ?c" using assms(2) by (simp add: not_le)
  have jl: "?j < ?L" using il nL by simp
  have jc: "?L \<le> ?j + ?c" using il nL nc by simp
  have rd: "buffer s ! ((start + i) mod ?c) = h ! ?j" using km cont [OF jl jc] by simp
  have "getSmoothed_loop s start n i acc = getSmoothed_loop s start n (i + 1) (acc @ [h ! ?j])"
    using il assms(2) lb st rd kl by (subst getSmoothed_loop.simps) (simp add: Let_def)
  also have "\<dots> = Inr ((acc @ [h ! ?j]) @ drop (?L - n + (i + 1)) h)"
    using Suc.hyps(1) [of "i + 1"] Suc.hyps(2) il by simp
  also have "(acc @ [h ! ?j]) @ drop (?L - n + (i + 1)) h = acc @ drop ?j h"
    using jl by (simp add: Cons_nth_drop_Suc)
  finally show ?case .
qed

lemma getSmoothed_holds:
  assumes "rb_holds s h" "n \<le> count s"
  shows "getSmoothed n s = Inr (drop (length h - n) h)"
proof (cases "n = 0")
  case True
  then show ?thesis by (simp add: getSmoothed_def getSmoothed_loop.simps)
next
  case False
  let ?c = "capacity s" and ?L = "length h"
  from assms False have cpos: "0 < ?c" and nL: "n \<le> ?L" and nc: "n \<le> ?c"
    and hd: "head s = ?L mod ?c" and c: "?c \<le> vector_max_size"
    by (auto simp: rb_holds_def)
  have c63: "?c < 2 ^ 63" using c vector_max_size_lt by simp
  have hlt: "head s < ?c" using hd cpos by simp
  define start where "start = (if n \<le> head s then head s - n else size_t_sub ?c (n - head s))"
  have sub: "size_t_sub ?c (n - head s) = ?c - (n - head s)" if "\<not> n \<le> head s"
  proof -
    have "?c + 2 ^ 64 - (n - head s) = (?c - (n - head s)) + 2 ^ 64"
      using nc by simp
    moreover have "?c - (n - head s) < 2 ^ 64" using c63 by simp
    ultimately show ?thesis by (simp only: size_t_sub_def size_t_def mod_add_self2 mod_less)
  qed
  have s1: "(start + n) mod ?c = ?L mod ?c"
  proof (cases "n \<le> head s")
    case True
    then show ?thesis using hd by (simp add: start_def)
  next
    case False
    then have "start + n = head s + ?c" using sub nc by (simp add: start_def)
    then show ?thesis using hd by simp
  qed
  have s2: "start + n < 2 ^ 64"
  proof -
    have "start + n \<le> head s + ?c" using sub nc by (auto simp: start_def)
    then show ?thesis using hlt c63 by simp
  qed
  have "getSmoothed n s = getSmoothed_loop s start n 0 []"
    using assms(2) by (simp add: getSmoothed_def start_def)
  also have "\<dots> = Inr ([] @ drop (?L - n + 0) h)"
    by (rule getSmoothed_loop_holds [OF assms(1) cpos assms(2) _ s1 s2]) simp
  finally show ?thesis by simp
qed

section \<open>Ring buffer: claims\<close>



text \<open>
  Claim C7. In every ring-buffer state with occupied count \<open>c\<close>, a request for
  \<open>n > c\<close> samples returns the empty vector; the result is a value, not
  \<open>OutOfBounds\<close>: no element of the storage is read, inside or outside.
\<close>

theorem getSmoothed_insufficient:
  "count s < n \<Longrightarrow> getSmoothed n s = Inr []"
  by (simp add: getSmoothed_def)

theorem getSmoothed_insufficient_witness:
  "count \<lparr>buffer = [7, 8, 0], head = 2, tail = 0, count = 2, capacity = 3\<rparr> < 3 \<and>
   getSmoothed 3 \<lparr>buffer = [7, 8, 0], head = 2, tail = 0, count = 2, capacity = 3\<rparr> = Inr []"
  using getSmoothed_insufficient
    [of "\<lparr>buffer = [7, 8, 0], head = 2, tail = 0, count = 2, capacity = 3\<rparr>" 3]
  by simp

section \<open>Rounding: exponent, grid and monotonicity\<close>

lemmas ev = f32_def f64_def fround_def fround_q_def fround_r_def ilog2_def rne_def rne_pick_def
  compute_bitlen

lemma powi2_less_iff: "(2::real) powi a < 2 powi b \<longleftrightarrow> a < b"
proof
  assume l: "(2::real) powi a < 2 powi b"
  show "a < b"
  proof (rule ccontr)
    assume "\<not> a < b"
    then have "(2::real) powi b \<le> 2 powi a" by (intro power_int_increasing) simp_all
    with l show False by simp
  qed
next
  assume "a < b"
  then show "(2::real) powi a < 2 powi b" by (intro power_int_strict_increasing) simp_all
qed

lemma powi2_le_iff: "(2::real) powi a \<le> 2 powi b \<longleftrightarrow> a \<le> b"
  using powi2_less_iff [of b a] by (simp add: not_less [symmetric] del: not_less)

lemma powi2_pos: "0 < (2::real) powi a"
  by (simp add: zero_less_power_int)

lemma ilog2_bounds:
  assumes "0 < x"
  shows "2 powi (ilog2 x) \<le> x \<and> x < 2 powi (ilog2 x + 1)"
proof (cases "1 \<le> x")
  case True
  let ?n = "\<lfloor>x\<rfloor>"
  have n: "0 < ?n" using True by simp
  from bitlen_bounds [OF n] have lo: "2 ^ nat (bitlen ?n - 1) \<le> ?n"
    and hi: "?n < 2 ^ nat (bitlen ?n)" by simp_all
  have b1: "1 \<le> bitlen ?n" using n by (simp add: bitlen_alt_def)
  have "real_of_int (2 ^ nat (bitlen ?n - 1)) \<le> real_of_int ?n"
    using lo by (simp only: of_int_le_iff)
  then have "2 powi (bitlen ?n - 1) \<le> real_of_int ?n"
    using b1 by (simp add: power_int_nonneg_exp)
  also have "\<dots> \<le> x" by simp
  finally have A: "2 powi (ilog2 x) \<le> x" using True by (simp add: ilog2_def)
  have "?n + 1 \<le> 2 ^ nat (bitlen ?n)" using hi by simp
  then have "real_of_int (?n + 1) \<le> real_of_int (2 ^ nat (bitlen ?n))"
    by (simp only: of_int_le_iff)
  then have "real_of_int ?n + 1 \<le> 2 powi (bitlen ?n)"
    using b1 by (simp add: power_int_nonneg_exp)
  moreover have "x < real_of_int ?n + 1" by linarith
  ultimately have "x < 2 powi (bitlen ?n)" by linarith
  moreover have "ilog2 x + 1 = bitlen ?n" using True by (simp add: ilog2_def)
  ultimately have "x < 2 powi (ilog2 x + 1)" by simp
  with A show ?thesis by simp
next
  case False
  let ?m = "\<lceil>1 / x\<rceil> - 1"
  have y: "1 < 1 / x" using False assms by simp
  then have m: "0 < ?m" by linarith
  from bitlen_bounds [OF m] have lo: "2 ^ nat (bitlen ?m - 1) \<le> ?m"
    and hi: "?m < 2 ^ nat (bitlen ?m)" by simp_all
  have b1: "1 \<le> bitlen ?m" using m by (simp add: bitlen_alt_def)
  have "?m + 1 \<le> 2 ^ nat (bitlen ?m)" using hi by simp
  then have "real_of_int (?m + 1) \<le> real_of_int (2 ^ nat (bitlen ?m))"
    by (simp only: of_int_le_iff)
  then have "real_of_int (?m + 1) \<le> 2 powi (bitlen ?m)"
    using b1 by (simp add: power_int_nonneg_exp)
  moreover have "1 / x \<le> real_of_int (?m + 1)" by simp
  ultimately have "1 / x \<le> 2 powi (bitlen ?m)" by linarith
  then have "1 / 2 powi (bitlen ?m) \<le> x"
    using assms by (simp add: field_simps)
  then have A: "2 powi (ilog2 x) \<le> x"
    using False by (simp add: ilog2_def power_int_minus_divide)
  have "real_of_int (2 ^ nat (bitlen ?m - 1)) \<le> real_of_int ?m"
    using lo by (simp only: of_int_le_iff)
  then have "2 powi (bitlen ?m - 1) \<le> real_of_int ?m"
    using b1 by (simp add: power_int_nonneg_exp)
  moreover have "real_of_int ?m < 1 / x" by linarith
  ultimately have "2 powi (bitlen ?m - 1) < 1 / x" by linarith
  then have "x < 1 / 2 powi (bitlen ?m - 1)"
    using assms by (simp add: field_simps)
  also have "1 / 2 powi (bitlen ?m - 1) = (2::real) powi (- (bitlen ?m - 1))"
    by (simp only: power_int_minus_divide)
  finally have "x < 2 powi (ilog2 x + 1)" using False by (simp add: ilog2_def)
  with A show ?thesis by simp
qed

lemma ilog2_unique:
  assumes "2 powi e \<le> x" "x < 2 powi (e + 1)"
  shows "ilog2 x = e"
proof -
  have x: "0 < x" using assms(1) powi2_pos [of e] by linarith
  from ilog2_bounds [OF x] have b: "2 powi (ilog2 x) \<le> x" "x < 2 powi (ilog2 x + 1)" by simp_all
  have "(2::real) powi e < 2 powi (ilog2 x + 1)" using assms(1) b(2) by linarith
  then have 1: "e < ilog2 x + 1" by (simp only: powi2_less_iff)
  have "(2::real) powi (ilog2 x) < 2 powi (e + 1)" using assms(2) b(1) by linarith
  then have 2: "ilog2 x < e + 1" by (simp only: powi2_less_iff)
  from 1 2 show ?thesis by simp
qed

lemma rne_of_int [simp]: "rne (of_int n) = n"
  by (simp add: rne_def rne_pick_def)

lemma rne_0 [simp]: "rne 0 = 0"
  using rne_of_int [of 0] by simp

lemma rne_cases: "rne y = \<lfloor>y\<rfloor> \<or> rne y = \<lfloor>y\<rfloor> + 1"
  by (simp add: rne_def rne_pick_def)

lemma rne_floor_le: "\<lfloor>y\<rfloor> \<le> rne y"
  using rne_cases [of y] by auto

lemma rne_le_int:
  assumes "y \<le> of_int n"
  shows "rne y \<le> n"
proof (cases "y = of_int n")
  case True
  then show ?thesis by simp
next
  case False
  then have "y < of_int n" using assms by simp
  then have "\<lfloor>y\<rfloor> < n" by (simp add: floor_less_iff)
  then show ?thesis using rne_cases [of y] by auto
qed

lemma rne_ge_int:
  assumes "of_int n \<le> y"
  shows "n \<le> rne y"
proof -
  have "n \<le> \<lfloor>y\<rfloor>" using assms by (simp add: le_floor_iff)
  then show ?thesis using rne_floor_le [of y] by simp
qed

lemma rne_error: "\<bar>of_int (rne y) - y\<bar> \<le> 1 / 2"
proof -
  have a: "of_int \<lfloor>y\<rfloor> \<le> y" and b: "y < of_int \<lfloor>y\<rfloor> + 1" by linarith+
  consider "y - of_int \<lfloor>y\<rfloor> < 1 / 2" | "1 / 2 < y - of_int \<lfloor>y\<rfloor>"
    | "y - of_int \<lfloor>y\<rfloor> = 1 / 2" by linarith
  then show ?thesis
  proof cases
    case 1
    then have "rne y = \<lfloor>y\<rfloor>" by (simp add: rne_def rne_pick_def)
    then show ?thesis using a 1 by simp
  next
    case 2
    then have "rne y = \<lfloor>y\<rfloor> + 1" by (simp add: rne_def rne_pick_def)
    then show ?thesis using b 2 by simp
  next
    case 3
    then have "rne y = \<lfloor>y\<rfloor> \<or> rne y = \<lfloor>y\<rfloor> + 1" by (simp add: rne_cases)
    then show ?thesis using 3 by auto
  qed
qed

lemma fround_alt:
  "fround p emn emx x =
     (if x = 0 then Fin 0
      else if 2 powi (emx + 1) \<le> \<bar>rv p emn x\<bar> then (if 0 < x then PInf else NInf)
      else Fin (rv p emn x))"
  by (simp add: fround_def fround_q_def fround_r_def rv_def fexp_def)

lemma ilog2_mono:
  assumes "0 < x" "x \<le> y"
  shows "ilog2 x \<le> ilog2 y"
proof -
  have y: "0 < y" using assms by simp
  from ilog2_bounds [OF assms(1)] ilog2_bounds [OF y]
  have "(2::real) powi ilog2 x < 2 powi (ilog2 y + 1)" using assms(2) by linarith
  then show ?thesis by (simp only: powi2_less_iff)
qed

lemma fexp_mono:
  assumes "0 < x" "x \<le> y"
  shows "fexp p emn x \<le> fexp p emn y"
  using ilog2_mono [OF assms] assms by (simp add: fexp_def)

text \<open>Exactness: a value on the grid, with a significand of at most \<open>p\<close> bits, is not changed.\<close>

lemma rv_exact:
  assumes "x = of_int m * 2 powi k" "\<bar>m\<bar> < 2 ^ p" "emn - int p + 1 \<le> k"
  shows "rv p emn x = x"
proof (cases "x = 0")
  case True
  then show ?thesis by (simp add: rv_def)
next
  case False
  let ?e = "fexp p emn x"
  have ax: "0 < \<bar>x\<bar>" using False by simp
  have "\<bar>x\<bar> = of_int \<bar>m\<bar> * 2 powi k"
    using assms(1) powi2_pos [of k] by (simp add: abs_mult)
  also have "\<dots> < 2 ^ p * 2 powi k"
  proof -
    have "real_of_int \<bar>m\<bar> < real_of_int (2 ^ p)" using assms(2) by (simp only: of_int_less_iff)
    then show ?thesis using powi2_pos [of k] by simp
  qed
  also have "\<dots> = 2 powi (int p + k)" by (simp add: power_int_add)
  finally have "\<bar>x\<bar> < 2 powi (int p + k)" .
  with ilog2_bounds [OF ax] have "(2::real) powi ilog2 \<bar>x\<bar> < 2 powi (int p + k)" by linarith
  then have "ilog2 \<bar>x\<bar> < int p + k" by (simp only: powi2_less_iff)
  then have ek: "?e \<le> k" using assms(3) by (simp add: fexp_def)
  have "x / 2 powi ?e = of_int m * 2 powi (k - ?e)"
    using assms(1) by (simp add: power_int_diff)
  also have "\<dots> = of_int (m * 2 ^ nat (k - ?e))"
    using ek by (simp add: power_int_nonneg_exp)
  finally have "rne (x / 2 powi ?e) = m * 2 ^ nat (k - ?e)" by (simp only: rne_of_int)
  then have "rv p emn x = of_int (m * 2 ^ nat (k - ?e)) * 2 powi ?e" by (simp add: rv_def)
  also have "\<dots> = of_int m * (2 powi (k - ?e) * 2 powi ?e)"
    using ek by (simp add: power_int_nonneg_exp)
  also have "2 powi (k - ?e) * 2 powi ?e = (2::real) powi k"
    by (simp add: power_int_add [symmetric])
  finally show ?thesis using assms(1) by simp
qed

lemma fround_exact:
  assumes "x = of_int m * 2 powi k" "\<bar>m\<bar> < 2 ^ p" "emn - int p + 1 \<le> k"
    and "\<bar>x\<bar> < 2 powi (emx + 1)"
  shows "fround p emn emx x = Fin x"
  using rv_exact [OF assms(1-3)] assms(4) by (simp add: fround_alt)

lemma fround_int_exact:
  assumes "\<bar>m\<bar> < 2 ^ p" "emn - int p + 1 \<le> 0" "int p \<le> emx + 1"
  shows "fround p emn emx (of_int m) = Fin (of_int m)"
proof (rule fround_exact [where m = m and k = 0])
  show "real_of_int m = real_of_int m * 2 powi 0" by simp
  show "\<bar>m\<bar> < 2 ^ p" by fact
  show "emn - int p + 1 \<le> 0" by fact
  have "real_of_int \<bar>m\<bar> < real_of_int (2 ^ p)" using assms(1) by (simp only: of_int_less_iff)
  also have "\<dots> = 2 powi (int p)" by simp
  also have "\<dots> \<le> 2 powi (emx + 1)" using assms(3) by (simp only: powi2_le_iff)
  finally show "\<bar>real_of_int m\<bar> < 2 powi (emx + 1)" by simp
qed

lemma rv_nonneg:
  assumes "0 \<le> x"
  shows "0 \<le> rv p emn x"
proof -
  have "0 \<le> x / 2 powi fexp p emn x" using assms powi2_pos by simp
  then have "0 \<le> rne (x / 2 powi fexp p emn x)" using rne_ge_int [of 0] by simp
  then show ?thesis using powi2_pos [of "fexp p emn x"] by (simp add: rv_def)
qed

lemma rv_fixed_quot:
  assumes "rv p emn c = c"
  shows "c / 2 powi fexp p emn c = of_int (rne (c / 2 powi fexp p emn c))"
proof -
  have "of_int (rne (c / 2 powi fexp p emn c)) * 2 powi fexp p emn c = c"
    using assms by (simp add: rv_def)
  then show ?thesis using powi2_pos [of "fexp p emn c"]
    by (metis nonzero_mult_div_cancel_right less_irrefl)
qed

lemma rv_le_rep:
  assumes "0 < x" "x \<le> c" "rv p emn c = c"
  shows "rv p emn x \<le> c"
proof -
  let ?ex = "fexp p emn x" and ?ec = "fexp p emn c"
  have c: "0 < c" using assms by simp
  have le: "?ex \<le> ?ec" by (rule fexp_mono [OF assms(1,2)])
  show ?thesis
  proof (cases "?ex = ?ec")
    case True
    let ?N = "rne (c / 2 powi ?ec)"
    have "x / 2 powi ?ex \<le> c / 2 powi ?ec"
      using True assms(2) powi2_pos [of ?ec] by (simp add: divide_right_mono)
    also have "\<dots> = of_int ?N" by (rule rv_fixed_quot [OF assms(3)])
    finally have "rne (x / 2 powi ?ex) \<le> ?N" by (rule rne_le_int)
    then have "real_of_int (rne (x / 2 powi ?ex)) \<le> real_of_int ?N" by (simp only: of_int_le_iff)
    then have "rv p emn x \<le> of_int ?N * 2 powi ?ec"
      using True powi2_pos [of ?ec] by (simp add: rv_def)
    also have "\<dots> = c" using assms(3) by (simp add: rv_def)
    finally show ?thesis .
  next
    case False
    then have lt: "?ex < ?ec" using le by simp
    have "emn - int p + 1 \<le> ?ex" by (simp add: fexp_def)
    then have ec: "?ec = ilog2 c - int p + 1" using lt c by (simp add: fexp_def max_def split: if_splits)
    have ex: "ilog2 x + 1 \<le> ?ex + int p" using assms(1) by (simp add: fexp_def)
    have "x < 2 powi (ilog2 x + 1)" using ilog2_bounds [OF assms(1)] by simp
    also have "\<dots> \<le> 2 powi (?ex + int p)" using ex by (simp only: powi2_le_iff)
    also have "\<dots> = 2 powi ?ex * 2 ^ p" by (simp add: power_int_add)
    finally have "x / 2 powi ?ex \<le> 2 ^ p"
      using powi2_pos [of ?ex] by (simp add: field_simps)
    also have "\<dots> = real_of_int (2 ^ p)" by simp
    finally have "rne (x / 2 powi ?ex) \<le> 2 ^ p" by (rule rne_le_int)
    then have "real_of_int (rne (x / 2 powi ?ex)) \<le> real_of_int (2 ^ p)" by (simp only: of_int_le_iff)
    then have "rv p emn x \<le> 2 ^ p * 2 powi ?ex"
      using powi2_pos [of ?ex] by (simp add: rv_def)
    also have "\<dots> = 2 powi (?ex + int p)" by (simp add: power_int_add)
    also have "\<dots> \<le> 2 powi (ilog2 c)" using lt ec by (simp only: powi2_le_iff)
    also have "\<dots> \<le> c" using ilog2_bounds [OF c] by simp
    finally show ?thesis .
  qed
qed

lemma rv_ge_rep:
  assumes "0 < c" "c \<le> x" "rv p emn c = c" "0 < p"
  shows "c \<le> rv p emn x"
proof -
  let ?ex = "fexp p emn x" and ?ec = "fexp p emn c"
  have x: "0 < x" using assms by simp
  have le: "?ec \<le> ?ex" by (rule fexp_mono [OF assms(1,2)])
  show ?thesis
  proof (cases "?ex = ?ec")
    case True
    let ?N = "rne (c / 2 powi ?ec)"
    have "of_int ?N = c / 2 powi ?ec" by (rule rv_fixed_quot [OF assms(3), symmetric])
    also have "\<dots> \<le> x / 2 powi ?ex"
      using True assms(2) powi2_pos [of ?ec] by (simp add: divide_right_mono)
    finally have "?N \<le> rne (x / 2 powi ?ex)" by (rule rne_ge_int)
    then have "real_of_int ?N \<le> real_of_int (rne (x / 2 powi ?ex))" by (simp only: of_int_le_iff)
    then have "of_int ?N * 2 powi ?ec \<le> rv p emn x"
      using True powi2_pos [of ?ec] by (simp add: rv_def)
    moreover have "of_int ?N * 2 powi ?ec = c" using assms(3) by (simp add: rv_def)
    ultimately show ?thesis by simp
  next
    case False
    then have lt: "?ec < ?ex" using le by simp
    have "emn - int p + 1 \<le> ?ec" by (simp add: fexp_def)
    then have ex: "?ex = ilog2 x - int p + 1" using lt x by (simp add: fexp_def max_def split: if_splits)
    have ec: "ilog2 c + 1 \<le> ?ec + int p" using assms(1) by (simp add: fexp_def)
    have p1: "int p - 1 = int (p - 1)" using assms(4) by simp
    have pw: "2 powi ?ex * 2 ^ (p - 1) = (2::real) powi (?ex + (int p - 1))"
      unfolding p1 by (simp add: power_int_add)
    note pw
    also have "\<dots> = 2 powi (ilog2 x)" using ex by simp
    also have "\<dots> \<le> x" using ilog2_bounds [OF x] by simp
    finally have "real_of_int (2 ^ (p - 1)) \<le> x / 2 powi ?ex"
      using powi2_pos [of ?ex] by (simp add: field_simps)
    then have "2 ^ (p - 1) \<le> rne (x / 2 powi ?ex)" by (rule rne_ge_int)
    then have "real_of_int (2 ^ (p - 1)) \<le> real_of_int (rne (x / 2 powi ?ex))"
      by (simp only: of_int_le_iff)
    then have r: "2 ^ (p - 1) * 2 powi ?ex \<le> rv p emn x"
      using powi2_pos [of ?ex] by (simp add: rv_def)
    have "c < 2 powi (ilog2 c + 1)" using ilog2_bounds [OF assms(1)] by simp
    also have "\<dots> \<le> 2 powi (?ex + (int p - 1))" using ec lt by (simp only: powi2_le_iff)
    also have "\<dots> = 2 ^ (p - 1) * 2 powi ?ex"
      by (simp only: pw [symmetric] mult.commute)
    finally show ?thesis using r by simp
  qed
qed

lemma fround_fixed:
  assumes "fround p emn emx c = Fin c" "c \<noteq> 0"
  shows "rv p emn c = c" "\<bar>c\<bar> < 2 powi (emx + 1)"
  using assms by (auto simp: fround_alt split: if_splits)

lemma fround_le_rep:
  assumes "0 \<le> x" "x \<le> c" "fround p emn emx c = Fin c"
  shows "\<exists>r. fround p emn emx x = Fin r \<and> 0 \<le> r \<and> r \<le> c"
proof (cases "x = 0")
  case True
  then show ?thesis using assms by (simp add: fround_alt)
next
  case False
  then have x: "0 < x" and c: "c \<noteq> 0" using assms by auto
  from fround_fixed [OF assms(3) c] have fx: "rv p emn c = c" and b: "\<bar>c\<bar> < 2 powi (emx + 1)" by simp_all
  have 1: "rv p emn x \<le> c" by (rule rv_le_rep [OF x assms(2) fx])
  have 2: "0 \<le> rv p emn x" by (rule rv_nonneg [OF assms(1)])
  have "\<bar>rv p emn x\<bar> < 2 powi (emx + 1)" using 1 2 b by simp
  then show ?thesis using 1 2 False by (simp add: fround_alt)
qed

lemma fround_ge_rep:
  assumes "0 < c" "c \<le> x" "fround p emn emx c = Fin c" "0 < p"
  shows "fround p emn emx x = PInf \<or> (\<exists>r. fround p emn emx x = Fin r \<and> c \<le> r)"
proof -
  have c: "c \<noteq> 0" using assms by simp
  from fround_fixed [OF assms(3) c] have fx: "rv p emn c = c" by simp
  have "c \<le> rv p emn x" by (rule rv_ge_rep [OF assms(1,2) fx assms(4)])
  then show ?thesis using assms(1,2) by (simp add: fround_alt)
qed

section \<open>Exact conversions and the clamp\<close>

lemma f32_int: "\<bar>m\<bar> < 2 ^ 24 \<Longrightarrow> f32 (of_int m) = Fin (of_int m)"
  unfolding f32_def by (rule fround_int_exact) simp_all

lemma f64_int: "\<bar>m\<bar> < 2 ^ 53 \<Longrightarrow> f64 (of_int m) = Fin (of_int m)"
  unfolding f64_def by (rule fround_int_exact) simp_all

lemma f64_int_le: "\<bar>m\<bar> \<le> 2 ^ 53 \<Longrightarrow> f64 (of_int m) = Fin (of_int m)"
proof (cases "\<bar>m\<bar> < 2 ^ 53")
  case True
  then show ?thesis by (rule f64_int)
next
  case False
  assume "\<bar>m\<bar> \<le> 2 ^ 53"
  with False have m: "m = 2 ^ 53 \<or> m = - (2 ^ 53)" by linarith
  have "fround 53 (- 1022) 1023 (real_of_int s * 2 powi 53) = Fin (real_of_int s * 2 powi 53)"
    if "s = 1 \<or> s = - 1" for s :: int
    by (rule fround_exact [where m = s and k = 53]) (use that in auto)
  from this [of 1] this [of "- 1"] m show ?thesis by (auto simp: f64_def)
qed

lemma f32_0 [simp]: "f32 0 = Fin 0" by (simp add: f32_def fround_def)

lemma f64_0 [simp]: "f64 0 = Fin 0" by (simp add: f64_def fround_def)

lemma sint_short_bounds: "- 32768 \<le> sint (x :: short)" "sint (x :: short) \<le> 32767"
  using sint_ge [of x] sint_lt [of x] by simp_all

lemma float_of_short: "float_of_int (sint (x :: short)) = Fin (of_int (sint x))"
proof -
  have "\<bar>sint x\<bar> < 2 ^ 24" using sint_short_bounds [of x] by simp
  then show ?thesis unfolding float_of_int_def by (rule f32_int)
qed

lemma double_of_int_exact: "\<bar>m\<bar> \<le> 2 ^ 53 \<Longrightarrow> double_of_int m = Fin (of_int m)"
  unfolding double_of_int_def by (rule f64_int_le)

lemma double_of_ulong_exact:
  assumes "n < 2 ^ 53"
  shows "double_of_ulong n = Fin (of_nat n)"
proof -
  have "\<bar>int n\<bar> < 2 ^ 53" using assms by simp
  from f64_int [OF this] show ?thesis by (simp add: double_of_ulong_def)
qed

lemma f32_32767: "f32 32767 = Fin 32767"
  using f32_int [of 32767] by simp

lemma f32_m32768: "f32 (- 32768) = Fin (- 32768)"
  using f32_int [of "- 32768"] by simp

lemma trunc_mono_bounds:
  assumes "- 32768 \<le> y" "y \<le> 32767"
  shows "- 32768 \<le> trunc y" "trunc y \<le> 32767"
  using assms by (auto simp: trunc_def le_floor_iff floor_le_iff ceiling_le_iff le_ceiling_iff)

lemma clamp_to_short_total: "clamp_to_short v = Inr (stored_sample v)"
proof (cases v)
  case (Fin y)
  let ?c = "max (- 32768) (min 32767 y)"
  have "std_max (f32 (- 32768)) (std_min (f32 32767) v) = Fin ?c"
    using Fin by (auto simp: std_max_def std_min_def f32_32767 f32_m32768)
  moreover have "- 32768 \<le> trunc ?c" "trunc ?c \<le> 32767"
    by (rule trunc_mono_bounds; simp)+
  ultimately show ?thesis using Fin by (simp add: clamp_to_short_def)
next
  case PInf
  then show ?thesis
    by (simp add: clamp_to_short_def std_max_def std_min_def f32_32767 f32_m32768 trunc_def)
next
  case NInf
  then show ?thesis
    by (simp add: clamp_to_short_def std_max_def std_min_def f32_32767 f32_m32768 trunc_def)
next
  case NaN
  then show ?thesis
    by (simp add: clamp_to_short_def std_max_def std_min_def f32_32767 f32_m32768 trunc_def)
qed

section \<open>High-pass filter\<close>

lemma hp_loop_run:
  "i \<le> length audio \<Longrightarrow>
   applyHighPassFilter_loop audio i u w =
     (case hp_run (drop i audio) u w of (out, st) \<Rightarrow> Inr (take i audio @ out, st))"
proof (induction "length audio - i" arbitrary: audio i u w)
  case 0
  then show ?case by (simp add: applyHighPassFilter_loop.simps)
next
  case (Suc d)
  then have il: "i < length audio" by simp
  let ?y = "hp_output u w (audio ! i)"
  let ?v = "stored_sample ?y"
  let ?a = "audio[i := ?v]"
  have d: "drop i audio = audio ! i # drop (Suc i) audio"
    using il by (simp add: Cons_nth_drop_Suc)
  have "applyHighPassFilter_loop audio i u w =
          applyHighPassFilter_loop ?a (i + 1) (float_of_int (sint (audio ! i))) ?y"
    using il
    by (subst applyHighPassFilter_loop.simps)
       (simp add: Let_def clamp_to_short_total hp_output_def)
  also have "\<dots> = (case hp_run (drop (i + 1) ?a) (float_of_int (sint (audio ! i))) ?y of
                      (out, st) \<Rightarrow> Inr (take (i + 1) ?a @ out, st))"
    using Suc.hyps(2) il by (intro Suc.hyps(1)) simp_all
  also have "drop (i + 1) ?a = drop (Suc i) audio" by simp
  also have "take (i + 1) ?a = take i audio @ [?v]"
    using il by (simp add: take_Suc_conv_app_nth)
  finally show ?case by (simp add: d split: prod.splits)
qed

lemma applyHighPassFilter_run:
  "applyHighPassFilter audio u w = Inr (hp_run audio u w)"
  by (simp add: applyHighPassFilter_def hp_loop_run split: prod.splits)

lemma hp_y_Cons_Suc:
  "hp_y (x # xs) u w (Suc n) = hp_y xs (float_of_int (sint x)) (hp_output u w x) n"
  by (induction n) simp_all

lemma hp_run_indexed:
  "hp_run xs u w =
     (map (\<lambda>n. stored_sample (hp_y xs u w n)) [0..<length xs], hp_final xs u w)"
proof (induction xs arbitrary: u w)
  case Nil
  then show ?case by (simp add: hp_final_def)
next
  case (Cons x xs)
  have m: "map (\<lambda>n. stored_sample (hp_y (x # xs) u w n)) [0..<length (x # xs)] =
        stored_sample (hp_output u w x) #
        map (\<lambda>n. stored_sample (hp_y xs (float_of_int (sint x)) (hp_output u w x) n))
          [0..<length xs]"
    by (simp add: upt_conv_Cons map_Suc_upt [symmetric] hp_y_Cons_Suc del: upt_Suc hp_y.simps(2))
  have f: "hp_final (x # xs) u w = hp_final xs (float_of_int (sint x)) (hp_output u w x)"
  proof (cases xs)
    case Nil
    then show ?thesis by (simp add: hp_final_def)
  next
    case (Cons a as)
    then show ?thesis by (simp add: hp_final_def hp_y_Cons_Suc del: hp_y.simps(2))
  qed
  show ?case by (simp only: m f hp_run.simps Cons.IH) simp
qed

lemma alpha_value: "alpha = Fin (15938355 / 16777216)"
  by (simp add: alpha_def ev)

text \<open>
  Claim C1, as the code has it. For every block and every state \<open>(u, w)\<close> of
  \<open>(prev_input, prev_output)\<close> the in-place loop returns without fault; sample \<open>n\<close>
  of the result is the stored form of \<open>y[n]\<close>, where
  \<open>y[n] = alpha * (prevOutput + x[n] - prevInput)\<close> is evaluated in single precision
  with \<open>alpha = 0.95f\<close>, \<open>prevInput = x[n-1]\<close> and \<open>prevOutput = y[n-1]\<close> (unclamped).
  What is stored is \<open>static_cast<short>\<close> of the clamped value, that is the clamped
  value truncated towards zero, not rounded; the state left behind is the last input
  and the last unclamped output.
\<close>

theorem applyHighPassFilter_recurrence:
  "applyHighPassFilter xs u w =
     Inr (map (\<lambda>n. stored_sample (hp_y xs u w n)) [0..<length xs], hp_final xs u w)"
  by (simp add: applyHighPassFilter_run hp_run_indexed)

text \<open>
  Claim C1 as stated fails: for the block \<open>[1]\<close> and the zero state the output is
  \<open>y = 0.95f\<close>; the code stores 0, while \<open>clamp(round(y), -32768, 32767)\<close> is 1
  (for the single-precision value and for the real number 0.95 alike).
\<close>

theorem applyHighPassFilter_rounds_counterexample:
  "applyHighPassFilter [1] (Fin 0) (Fin 0) = Inr ([0], Fin 1, Fin (15938355 / 16777216)) \<and>
   spec_stored_sample (15938355 / 16777216) = 1 \<and> spec_stored_sample (95 / 100) = 1"
proof -
  have y: "hp_output (Fin 0) (Fin 0) 1 = Fin (15938355 / 16777216)"
    by (simp add: hp_output_def alpha_value float_of_int_def fsub_def ev)
  have "applyHighPassFilter [1] (Fin 0) (Fin 0) = Inr ([0], Fin 1, Fin (15938355 / 16777216))"
    by (simp add: applyHighPassFilter_run y trunc_def float_of_int_def ev)
  moreover have "spec_stored_sample (15938355 / 16777216) = 1"
    by (simp add: spec_stored_sample_def round_def)
  moreover have "spec_stored_sample (95 / 100) = 1"
    by (simp add: spec_stored_sample_def round_def)
  ultimately show ?thesis by simp
qed

section \<open>Automatic gain control\<close>

lemma level_loop_foldl:
  "applyAGC_level_loop audio i lvl =
     foldl (\<lambda>l x. fadd f64 l (double_of_int \<bar>sint x\<bar>)) lvl (drop i audio)"
proof (induction "length audio - i" arbitrary: i lvl)
  case 0
  then show ?case by (simp add: applyAGC_level_loop.simps)
next
  case (Suc d)
  then have il: "i < length audio" by simp
  have d: "drop i audio = audio ! i # drop (Suc i) audio"
    using il by (simp add: Cons_nth_drop_Suc)
  show ?case
    using il Suc.hyps(1) [of "i + 1"] Suc.hyps(2)
    by (subst applyAGC_level_loop.simps) (simp add: d)
qed

lemma gain_loop_map:
  "i \<le> length audio \<Longrightarrow>
   applyAGC_gain_loop audio i g =
     Inr (take i audio @
          map (\<lambda>x. stored_sample (fmul f32 (float_of_int (sint x)) g)) (drop i audio))"
proof (induction "length audio - i" arbitrary: audio i)
  case 0
  then show ?case by (simp add: applyAGC_gain_loop.simps)
next
  case (Suc d)
  then have il: "i < length audio" by simp
  let ?v = "stored_sample (fmul f32 (float_of_int (sint (audio ! i))) g)"
  let ?a = "audio[i := ?v]"
  have d: "drop i audio = audio ! i # drop (Suc i) audio"
    using il by (simp add: Cons_nth_drop_Suc)
  have "applyAGC_gain_loop audio i g = applyAGC_gain_loop ?a (i + 1) g"
    using il by (subst applyAGC_gain_loop.simps) (simp add: Let_def clamp_to_short_total)
  also have "\<dots> = Inr (take (i + 1) ?a @
          map (\<lambda>x. stored_sample (fmul f32 (float_of_int (sint x)) g)) (drop (i + 1) ?a))"
    using Suc.hyps(2) il by (intro Suc.hyps(1)) simp_all
  also have "drop (i + 1) ?a = drop (Suc i) audio" by simp
  also have "take (i + 1) ?a = take i audio @ [?v]"
    using il by (simp add: take_Suc_conv_app_nth)
  finally show ?case by (simp add: d)
qed

lemma applyAGC_alt:
  "applyAGC audio g =
     (if flt (Fin 0) (agc_current_level audio)
      then Inr (map (\<lambda>x. stored_sample (fmul f32 (float_of_int (sint x))
                                          (agc_new_gain (agc_current_level audio) g))) audio,
                agc_new_gain (agc_current_level audio) g)
      else Inr (audio, g))"
  by (simp add: applyAGC_def Let_def level_loop_foldl gain_loop_map agc_current_level_def
      agc_new_gain_def double_of_int_def)

lemma f32_tenth: "f32 (1 / 10) = Fin (13421773 / 134217728)"
  by (simp add: ev)

lemma f32_ten: "f32 10 = Fin 10"
  using f32_int [of 10] by simp

lemma agc_new_gain_in_range: "gain_in_range (agc_new_gain lvl g)"
proof -
  have "gain_in_range (std_max (f32 (1 / 10)) (std_min (f32 10) v))" for v
    by (cases v) (auto simp: std_max_def std_min_def f32_tenth f32_ten gain_in_range_def)
  then show ?thesis by (simp add: agc_new_gain_def)
qed

lemma applyAGC_in_range:
  assumes "gain_in_range g"
  shows "\<exists>audio' g'. applyAGC audio g = Inr (audio', g') \<and> gain_in_range g'"
  using assms agc_new_gain_in_range by (simp add: applyAGC_alt)

lemma applyAGC_blocks_in_range:
  "gain_in_range g \<Longrightarrow> \<exists>g'. applyAGC_blocks bs g = Inr g' \<and> gain_in_range g'"
proof (induction bs arbitrary: g)
  case Nil
  then show ?case by simp
next
  case (Cons b bs)
  from applyAGC_in_range [OF Cons.prems, of b] obtain b' g1 where
    "applyAGC b g = Inr (b', g1)" "gain_in_range g1" by blast
  with Cons.IH [of g1] show ?case by simp
qed

lemma init_in_range: "gain_in_range g_current_gain_init"
  using f32_int [of 1] by (simp add: g_current_gain_init_def gain_in_range_def)

text \<open>
  Claim C2. The initial value \<open>1.0f\<close> of \<open>g_current_gain\<close> lies in \<open>[0.1, 10.0]\<close>, and
  after any sequence of blocks run through \<open>applyAGC\<close> the stored gain is a finite
  number in \<open>[0.1, 10.0]\<close>: the only store is of the clamped value.
\<close>

theorem gain_never_leaves_range:
  "gain_in_range g_current_gain_init \<and>
   (\<exists>g'. applyAGC_blocks blocks g_current_gain_init = Inr g' \<and> gain_in_range g')"
  using init_in_range applyAGC_blocks_in_range [OF init_in_range] by simp

section \<open>Noise gate\<close>

lemma f64_sum_exact:
  assumes "\<forall>x \<in> set xs. 0 \<le> f x" "0 \<le> S" "S + sum_list (map f xs) \<le> 2 ^ 53"
  shows "foldl (\<lambda>r x. fadd f64 r (double_of_int (f x))) (Fin (of_int S)) xs
           = Fin (of_int (S + sum_list (map f xs)))"
  using assms
proof (induction xs arbitrary: S)
  case Nil
  then show ?case by simp
next
  case (Cons x xs)
  have nn: "0 \<le> sum_list (map f xs)" using Cons.prems(1) by (auto intro!: sum_list_nonneg)
  have fx: "0 \<le> f x" using Cons.prems(1) by simp
  have "\<bar>f x\<bar> \<le> 2 ^ 53" using fx nn Cons.prems(2,3) by simp
  then have 1: "double_of_int (f x) = Fin (of_int (f x))" by (rule double_of_int_exact)
  have "\<bar>S + f x\<bar> \<le> 2 ^ 53" using fx nn Cons.prems(2,3) by simp
  then have 2: "f64 (of_int (S + f x)) = Fin (of_int (S + f x))" by (rule f64_int_le)
  have 3: "fadd f64 (Fin (of_int S)) (double_of_int (f x)) = Fin (of_int (S + f x))"
    using 1 2 by simp
  have "foldl (\<lambda>r x. fadd f64 r (double_of_int (f x))) (Fin (of_int (S + f x))) xs
          = Fin (of_int (S + f x + sum_list (map f xs)))"
    using Cons.prems fx by (intro Cons.IH) (simp_all add: add.assoc)
  then show ?case using 3 by (simp add: add.assoc)
qed

lemma sum_list_bounded:
  fixes f :: "'a \<Rightarrow> int"
  assumes "\<forall>x \<in> set xs. f x \<le> B"
  shows "sum_list (map f xs) \<le> int (length xs) * B"
  using assms by (induction xs) (auto simp: algebra_simps)

lemma gate_loop_foldl:
  "isAudioAboveNoiseGate_loop audio i rms =
     foldl (\<lambda>r x. fadd f64 r (double_of_int (sint x * sint x))) rms (drop i audio)"
proof (induction "length audio - i" arbitrary: i rms)
  case 0
  then show ?case by (simp add: isAudioAboveNoiseGate_loop.simps)
next
  case (Suc d)
  then have il: "i < length audio" by simp
  have d: "drop i audio = audio ! i # drop (Suc i) audio"
    using il by (simp add: Cons_nth_drop_Suc)
  show ?case
    using il Suc.hyps(1) [of "i + 1"] Suc.hyps(2)
    by (subst isAudioAboveNoiseGate_loop.simps) (simp add: d)
qed

lemma short_abs_bound: "\<bar>sint (x :: short)\<bar> \<le> 2 ^ 15"
  using sint_short_bounds [of x] by simp

lemma short_square_bound: "sint (x :: short) * sint x \<le> 2 ^ 30"
proof -
  have "\<bar>sint x\<bar> \<le> 2 ^ 15" using sint_short_bounds [of x] by simp
  then have "\<bar>sint x\<bar> * \<bar>sint x\<bar> \<le> 2 ^ 15 * 2 ^ 15" by (intro mult_mono) simp_all
  then show ?thesis by (simp add: abs_mult_self_eq)
qed

lemma sum_squares_bounds:
  "0 \<le> sum_squares xs" "sum_squares xs \<le> int (length xs) * 2 ^ 30"
  unfolding sum_squares_def
proof -
  show "0 \<le> (\<Sum>x\<leftarrow>xs. sint x * sint x)" by (auto intro!: sum_list_nonneg)
  show "(\<Sum>x\<leftarrow>xs. sint x * sint x) \<le> int (length xs) * 2 ^ 30"
    by (rule sum_list_bounded) (use short_square_bound in blast)
qed

lemma gate_sum_exact:
  assumes "length xs \<le> 2 ^ 23"
  shows "isAudioAboveNoiseGate_loop xs 0 (Fin 0) = Fin (of_int (sum_squares xs))"
proof -
  have "int (length xs) * 2 ^ 30 \<le> 2 ^ 23 * 2 ^ 30" using assms by simp
  then have b: "0 + sum_squares xs \<le> 2 ^ 53" using sum_squares_bounds(2) [of xs] by simp
  have "foldl (\<lambda>r x. fadd f64 r (double_of_int (sint x * sint x))) (Fin (of_int 0)) xs
          = Fin (of_int (0 + sum_list (map (\<lambda>x. sint x * sint x) xs)))"
    using b by (intro f64_sum_exact) (simp_all add: sum_squares_def)
  then show ?thesis by (simp add: gate_loop_foldl sum_squares_def)
qed

lemma sum_abs_bounds:
  "0 \<le> sum_abs xs" "sum_abs xs \<le> int (length xs) * 2 ^ 15"
  unfolding sum_abs_def
proof -
  show "0 \<le> (\<Sum>x\<leftarrow>xs. \<bar>sint x\<bar>)" by (auto intro!: sum_list_nonneg)
  have "\<forall>x \<in> set xs. \<bar>sint x\<bar> \<le> 2 ^ 15"
    using short_abs_bound by blast
  then show "(\<Sum>x\<leftarrow>xs. \<bar>sint x\<bar>) \<le> int (length xs) * 2 ^ 15" by (rule sum_list_bounded)
qed

lemma spec_rms_sum_squares:
  "spec_rms xs = sqrt (real_of_int (sum_squares xs) / real (length xs))"
proof -
  have "(\<Sum>x\<leftarrow>xs. (real_of_int (sint x))\<^sup>2) = real_of_int (sum_squares xs)"
    unfolding sum_squares_def by (induction xs) (simp_all add: power2_eq_square)
  then show ?thesis by (simp add: spec_rms_def)
qed

lemma f64_250000: "f64 250000 = Fin 250000"
  using f64_int [of 250000] by simp

lemma f64_500: "f64 500 = Fin 500"
  using f64_int [of 500] by simp

lemma f64_c1: "f64 (250000 + 1 / 2 ^ 23) = Fin (250000 + 1 / 2 ^ 23)"
proof -
  have "fround 53 (- 1022) 1023 (real_of_int 2097152000001 * 2 powi (- 23))
          = Fin (real_of_int 2097152000001 * 2 powi (- 23))"
    by (rule fround_exact [where m = 2097152000001 and k = "- 23"]) simp_all
  then show ?thesis by (simp add: f64_def)
qed

lemma f64_c2: "f64 (500 + 1 / 2 ^ 34) = Fin (500 + 1 / 2 ^ 34)"
proof -
  have "fround 53 (- 1022) 1023 (real_of_int 8589934592001 * 2 powi (- 34))
          = Fin (real_of_int 8589934592001 * 2 powi (- 34))"
    by (rule fround_exact [where m = 8589934592001 and k = "- 34"]) simp_all
  then show ?thesis by (simp add: f64_def)
qed

lemma gate_above:
  assumes "250000 + 1 / 2 ^ 23 \<le> (q :: real)"
  shows "flt (Fin 500) (fsqrt f64 (f64 q))"
proof -
  have "f64 q = PInf \<or> (\<exists>r. f64 q = Fin r \<and> 250000 + 1 / 2 ^ 23 \<le> r)"
    unfolding f64_def
    by (rule fround_ge_rep [OF _ assms]) (use f64_c1 in \<open>simp_all add: f64_def\<close>)
  then show ?thesis
  proof
    assume "f64 q = PInf"
    then show ?thesis by simp
  next
    assume "\<exists>r. f64 q = Fin r \<and> 250000 + 1 / 2 ^ 23 \<le> r"
    then obtain r where r: "f64 q = Fin r" "250000 + 1 / 2 ^ 23 \<le> r" by blast
    have "(500 + 1 / 2 ^ 34)\<^sup>2 \<le> (250000 + 1 / 2 ^ 23 :: real)"
      by (simp add: power2_eq_square)
    also have "\<dots> \<le> r" by fact
    finally have "500 + 1 / 2 ^ 34 \<le> sqrt r"
      by (rule real_le_rsqrt)
    then have "f64 (sqrt r) = PInf \<or> (\<exists>t. f64 (sqrt r) = Fin t \<and> 500 + 1 / 2 ^ 34 \<le> t)"
      unfolding f64_def
      by (intro fround_ge_rep) (use f64_c2 in \<open>simp_all add: f64_def\<close>)
    moreover have "\<not> r < 0" using r(2) by simp
    moreover have "500 < t" if "500 + 1 / 2 ^ 34 \<le> t" for t :: real
    proof -
      have "(0::real) < 1 / 2 ^ 34" by simp
      then show ?thesis using that by linarith
    qed
    ultimately show ?thesis using r(1) by auto
  qed
qed

lemma gate_below:
  assumes "0 \<le> q" "q \<le> (250000 :: real)"
  shows "\<not> flt (Fin 500) (fsqrt f64 (f64 q))"
proof -
  have "\<exists>r. f64 q = Fin r \<and> 0 \<le> r \<and> r \<le> 250000"
    unfolding f64_def
    by (rule fround_le_rep [OF assms]) (use f64_250000 in \<open>simp add: f64_def\<close>)
  then obtain r where r: "f64 q = Fin r" "0 \<le> r" "r \<le> 250000" by blast
  have "sqrt r \<le> sqrt (500\<^sup>2)" using r(3) by (simp only: real_sqrt_le_iff) simp
  then have s: "sqrt r \<le> 500" by simp
  have "\<exists>t. f64 (sqrt r) = Fin t \<and> 0 \<le> t \<and> t \<le> 500"
    unfolding f64_def
    by (rule fround_le_rep [OF _ s]) (use r(2) f64_500 in \<open>simp_all add: f64_def\<close>)
  then show ?thesis using r(1,2) by auto
qed

lemma gate_iff_rms:
  assumes "0 < length xs" "length xs \<le> 2 ^ 23"
  shows "isAudioAboveNoiseGate xs \<longleftrightarrow> 500 < spec_rms xs"
proof -
  let ?S = "sum_squares xs" and ?n = "length xs"
  have n53: "?n < 2 ^ 53" using assms(2) by simp
  have g: "isAudioAboveNoiseGate xs
             \<longleftrightarrow> flt (Fin 500) (fsqrt f64 (f64 (real_of_int ?S / real ?n)))"
    using assms(1) f64_int [of 500]
    by (simp add: isAudioAboveNoiseGate_def Let_def gate_sum_exact [OF assms(2)]
        double_of_ulong_exact [OF n53] double_of_int_def NOISE_GATE_THRESHOLD_def)
  have S0: "0 \<le> real_of_int ?S / real ?n"
    using sum_squares_bounds(1) [of xs] by simp
  have npos: "0 < real ?n" using assms(1) by simp
  show ?thesis
  proof (cases "?S \<le> 250000 * int ?n")
    case True
    then have "real_of_int ?S \<le> real_of_int (250000 * int ?n)" by (simp only: of_int_le_iff)
    then have q: "real_of_int ?S / real ?n \<le> 250000"
      using npos by (simp add: field_simps)
    then have "sqrt (real_of_int ?S / real ?n) \<le> sqrt (500\<^sup>2)"
      by (simp only: real_sqrt_le_iff) simp
    then have "\<not> 500 < spec_rms xs" by (simp add: spec_rms_sum_squares)
    moreover have "\<not> isAudioAboveNoiseGate xs" using g gate_below [OF S0 q] by simp
    ultimately show ?thesis by simp
  next
    case False
    then have "250000 * int ?n + 1 \<le> ?S" by simp
    then have "real_of_int (250000 * int ?n + 1) \<le> real_of_int ?S" by (simp only: of_int_le_iff)
    then have "250000 * real ?n + 1 \<le> real_of_int ?S" by simp
    then have "(250000 * real ?n + 1) / real ?n \<le> real_of_int ?S / real ?n"
      using npos by (intro divide_right_mono) simp_all
    moreover have "(250000 * real ?n + 1) / real ?n = 250000 + 1 / real ?n"
      using npos by (simp add: field_simps)
    ultimately have q1: "250000 + 1 / real ?n \<le> real_of_int ?S / real ?n" by simp
    have "real ?n \<le> real (2 ^ 23)" using assms(2) by (simp only: of_nat_le_iff)
    then have "real ?n \<le> 2 ^ 23" by simp
    then have "1 / 2 ^ 23 \<le> 1 / real ?n" using npos by (simp add: frac_le)
    with q1 have q: "250000 + 1 / 2 ^ 23 \<le> real_of_int ?S / real ?n" by linarith
    have "(0::real) < 1 / 2 ^ 23" by simp
    then have "250000 < real_of_int ?S / real ?n" using q by linarith
    then have "(500::real)\<^sup>2 < real_of_int ?S / real ?n" by simp
    then have "500 < spec_rms xs"
      unfolding spec_rms_sum_squares by (rule real_less_rsqrt)
    moreover have "isAudioAboveNoiseGate xs" using g gate_above [OF q] by simp
    ultimately show ?thesis by simp
  qed
qed

lemma fdiv_zero_num: "fdiv f64 (Fin 0) v = Fin 0 \<or> fdiv f64 (Fin 0) v = NaN"
  by (cases v) auto

lemma foldl_zero_block:
  assumes "\<forall>x \<in> set xs. f x = (0::int)"
  shows "foldl (\<lambda>r x. fadd f64 r (double_of_int (f x))) (Fin 0) xs = Fin 0"
  using assms by (induction xs) (simp_all add: double_of_int_def)

lemma gate_zero_block:
  assumes "\<forall>x \<in> set xs. x = 0"
  shows "\<not> isAudioAboveNoiseGate xs"
proof -
  have "\<forall>x \<in> set xs. sint x * sint x = 0" using assms by auto
  then have "isAudioAboveNoiseGate_loop xs 0 (Fin 0) = Fin 0"
    unfolding gate_loop_foldl drop_0 by (rule foldl_zero_block)
  moreover have "\<not> flt (Fin 500) (fsqrt f64 v)" if "v = Fin 0 \<or> v = NaN" for v
    using that by auto
  ultimately show ?thesis
    using fdiv_zero_num [of "double_of_ulong (length xs)"] f64_int [of 500]
    by (simp add: isAudioAboveNoiseGate_def Let_def double_of_int_def NOISE_GATE_THRESHOLD_def)
qed

section \<open>Gain control on a silent block\<close>

lemma spec_level_sum_abs: "spec_level xs = real_of_int (sum_abs xs) / real (length xs)"
proof -
  have "(\<Sum>x\<leftarrow>xs. \<bar>real_of_int (sint x)\<bar>) = real_of_int (sum_abs xs)"
    unfolding sum_abs_def by (induction xs) simp_all
  then show ?thesis by (simp add: spec_level_def)
qed

lemma sum_list_nonneg_eq_0:
  fixes f :: "'a \<Rightarrow> int"
  assumes "\<forall>x \<in> set xs. 0 \<le> f x" "sum_list (map f xs) = 0"
  shows "\<forall>x \<in> set xs. f x = 0"
  using assms
proof (induction xs)
  case Nil
  then show ?case by simp
next
  case (Cons a xs)
  have 1: "0 \<le> sum_list (map f xs)" using Cons.prems(1) by (auto intro!: sum_list_nonneg)
  have 2: "0 \<le> f a" using Cons.prems(1) by simp
  have 3: "f a + sum_list (map f xs) = 0" using Cons.prems(2) by simp
  have 4: "f a = 0" using 1 2 3 by linarith
  have 5: "sum_list (map f xs) = 0" using 1 2 3 by linarith
  have "\<forall>x \<in> set xs. f x = 0" using Cons.prems(1) 5 by (intro Cons.IH) simp_all
  then show ?case using 4 by simp
qed

lemma agc_level_zero_not_positive:
  assumes "spec_level xs = 0"
  shows "\<not> flt (Fin 0) (agc_current_level xs)"
proof -
  have "sum_abs xs = 0"
  proof (cases "xs = []")
    case True
    then show ?thesis by (simp add: sum_abs_def)
  next
    case False
    then show ?thesis using assms by (simp add: spec_level_sum_abs)
  qed
  then have "\<forall>x \<in> set xs. \<bar>sint x\<bar> = 0"
    unfolding sum_abs_def by (intro sum_list_nonneg_eq_0) simp_all
  then have "foldl (\<lambda>l x. fadd f64 l (double_of_int \<bar>sint x\<bar>)) (Fin 0) xs = Fin 0"
    by (rule foldl_zero_block)
  then show ?thesis
    using fdiv_zero_num [of "double_of_ulong (length xs)"]
    by (auto simp: agc_current_level_def)
qed


section \<open>The callback\<close>

lemma hp_run_length: "length (fst (hp_run xs u w)) = length xs"
proof (induction xs arbitrary: u w)
  case Nil
  then show ?case by simp
next
  case (Cons x xs)
  from Cons [of "float_of_int (sint x)" "hp_output u w x"] show ?case
    by (cases "hp_run xs (float_of_int (sint x)) (hp_output u w x)") simp
qed

lemma applyAGC_total:
  "\<exists>a g'. applyAGC f g = Inr (a, g') \<and> length a = length f"
  by (simp add: applyAGC_alt)

lemma preprocessAudio_total:
  "\<exists>a u w g. preprocessAudio b st =
       Inr (a, st\<lparr>prev_input := u, prev_output := w, g_current_gain := g\<rparr>) \<and>
     length a = length b"
proof -
  obtain f u w where h: "hp_run b (prev_input st) (prev_output st) = (f, u, w)"
    by (cases "hp_run b (prev_input st) (prev_output st)") auto
  have lf: "length f = length b" using hp_run_length [of b "prev_input st" "prev_output st"] h by simp
  from applyAGC_total [of f "g_current_gain st"]
  obtain a g where ag: "applyAGC f (g_current_gain st) = Inr (a, g)" "length a = length f"
    by blast
  have "preprocessAudio b st =
          Inr (a, st\<lparr>prev_input := u, prev_output := w, g_current_gain := g\<rparr>)"
    using h ag by (simp add: preprocessAudio_def applyHighPassFilter_run)
  then show ?thesis using ag(2) lf by auto
qed

lemma fallbacks_upd [simp]:
  "fallbacks (st\<lparr>trace := t\<rparr>) = length (filter (\<lambda>e. e = FallbackUsed) t)"
  "fallbacks (st\<lparr>recognizer := r\<rparr>) = fallbacks st"
  "fallbacks (st\<lparr>g_last_partial_result_json := j\<rparr>) = fallbacks st"
  by (simp_all add: fallbacks_def)

lemma submissions_upd [simp]:
  "submissions (st\<lparr>trace := t\<rparr>) =
     concat (map (\<lambda>e. case e of Submitted a \<Rightarrow> [a] | _ \<Rightarrow> []) t)"
  "submissions (st\<lparr>recognizer := r\<rparr>) = submissions st"
  "submissions (st\<lparr>g_last_partial_result_json := j\<rparr>) = submissions st"
  by (simp_all add: submissions_def)

lemma on_partial_cases:
  "on_partial c st = st \<or>
   (\<exists>j. on_partial c st = st\<lparr>trace := trace st @ [Printed (''Partial: '' @ j)],
                  g_last_partial_result_json := j\<rparr>)"
  unfolding on_partial_def by (cases c) auto

lemma on_partial_frame:
  "g_audio_buffer (on_partial c st) = g_audio_buffer st"
  "g_request_stop (on_partial c st) = g_request_stop st"
  "g_current_gain (on_partial c st) = g_current_gain st"
  "prev_input (on_partial c st) = prev_input st"
  "prev_output (on_partial c st) = prev_output st"
  "fallbacks (on_partial c st) = fallbacks st"
  "submissions (on_partial c st) = submissions st"
  using on_partial_cases [of c st] by (auto simp: fallbacks_def submissions_def)

lemma on_final_cases:
  "on_final c st = st\<lparr>g_last_partial_result_json := []\<rparr> \<or>
   (\<exists>j. on_final c st = st\<lparr>trace := trace st @ [Printed (''Final:   '' @ j)],
                  g_last_partial_result_json := []\<rparr>)"
  unfolding on_final_def by (cases c) auto

lemma on_final_frame:
  "g_audio_buffer (on_final c st) = g_audio_buffer st"
  "g_request_stop (on_final c st) = g_request_stop st"
  "g_current_gain (on_final c st) = g_current_gain st"
  "prev_input (on_final c st) = prev_input st"
  "prev_output (on_final c st) = prev_output st"
  "fallbacks (on_final c st) = fallbacks st"
  "submissions (on_final c st) = submissions st"
  using on_final_cases [of c st] by (auto simp: fallbacks_def submissions_def)

lemma feed_recognizer_frame:
  "g_audio_buffer (feed_recognizer api a st) = g_audio_buffer st"
  "g_request_stop (feed_recognizer api a st) = g_request_stop st"
  "g_current_gain (feed_recognizer api a st) = g_current_gain st"
  "prev_input (feed_recognizer api a st) = prev_input st"
  "prev_output (feed_recognizer api a st) = prev_output st"
  "fallbacks (feed_recognizer api a st) = fallbacks st"
  "submissions (feed_recognizer api a st) = submissions st @ [a]"
proof -
  obtain s r1 where a: "vosk_recognizer_accept_waveform_s api (recognizer st) a = (s, r1)"
    by (cases "vosk_recognizer_accept_waveform_s api (recognizer st) a") auto
  obtain p r2 where p: "vosk_recognizer_partial_result api r1 = (p, r2)"
    by (cases "vosk_recognizer_partial_result api r1") auto
  obtain f r3 where f: "vosk_recognizer_result api r1 = (f, r3)"
    by (cases "vosk_recognizer_result api r1") auto
  let ?st1 = "st\<lparr>recognizer := r1, trace := trace st @ [Submitted a]\<rparr>"
  have e: "feed_recognizer api a st =
      (if s = 0 then on_partial p (?st1\<lparr>recognizer := r2\<rparr>)
       else if 0 < s then on_final f (?st1\<lparr>recognizer := r3\<rparr>) else ?st1)"
    by (simp add: feed_recognizer_def a p f Let_def)
  have fb: "fallbacks ?st1 = fallbacks st" by (simp add: fallbacks_def)
  have sb: "submissions ?st1 = submissions st @ [a]" by (simp add: submissions_def)
  show "g_audio_buffer (feed_recognizer api a st) = g_audio_buffer st"
    "g_request_stop (feed_recognizer api a st) = g_request_stop st"
    "g_current_gain (feed_recognizer api a st) = g_current_gain st"
    "prev_input (feed_recognizer api a st) = prev_input st"
    "prev_output (feed_recognizer api a st) = prev_output st"
    by (simp_all add: e on_partial_frame on_final_frame)
  show "fallbacks (feed_recognizer api a st) = fallbacks st"
    by (simp add: e on_partial_frame on_final_frame) (simp add: fallbacks_def)
  show "submissions (feed_recognizer api a st) = submissions st @ [a]"
    by (simp add: e on_partial_frame on_final_frame) (simp add: submissions_def)
qed

lemma push_reachable:
  assumes "rb_reachable s" "0 < capacity s"
  shows "\<exists>s'. push xs s = Inr s' \<and> rb_reachable s' \<and> capacity s' = capacity s \<and>
              min (length xs) (capacity s) \<le> count s' \<and>
              (\<forall>n \<le> min (length xs) (capacity s).
                 getSmoothed n s' = Inr (drop (length xs - n) xs))"
proof -
  from rb_reachable_holds [OF assms(1)] obtain h where h: "rb_holds s h" by blast
  from push_holds [OF h assms(2), of xs] obtain s' where
    s': "push xs s = Inr s'" "rb_holds s' (h @ xs)" "capacity s' = capacity s" by blast
  have c: "count s' = min (length h + length xs) (capacity s)"
    using s'(2,3) by (simp add: rb_holds_def)
  have "getSmoothed n s' = Inr (drop (length xs - n) xs)"
    if "n \<le> min (length xs) (capacity s)" for n
  proof -
    have "n \<le> count s'" using that c by simp
    from getSmoothed_holds [OF s'(2) this]
    have "getSmoothed n s' = Inr (drop (length (h @ xs) - n) (h @ xs))" .
    also have "length (h @ xs) - n = length h + (length xs - n)"
      using that by simp
    also have "drop (length h + (length xs - n)) (h @ xs) = drop (length xs - n) xs"
      by simp
    finally show ?thesis .
  qed
  moreover have "min (length xs) (capacity s) \<le> count s'" using c by simp
  ultimately show ?thesis using s'(1,3) rb_push [OF assms(1) s'(1)] by blast
qed

lemma paCallback_dropped:
  assumes "\<not> isAudioAboveNoiseGate b"
  shows "paCallback api (Some b) st =
           Inr (if g_request_stop st then paComplete else paContinue, st)"
  using assms by (simp add: paCallback_def)

lemma paCallback_passed:
  assumes "rb_reachable (g_audio_buffer st)" "0 < length b"
    and "length b \<le> capacity (g_audio_buffer st)"
    and "isAudioAboveNoiseGate b" "\<not> g_request_stop st"
  shows "\<exists>a u w g buf.
           preprocessAudio b st =
             Inr (a, st\<lparr>prev_input := u, prev_output := w, g_current_gain := g\<rparr>) \<and>
           length a = length b \<and>
           push a (g_audio_buffer st) = Inr buf \<and> rb_reachable buf \<and>
           capacity buf = capacity (g_audio_buffer st) \<and> length b \<le> count buf \<and>
           getSmoothed (length b) buf = Inr a \<and>
           paCallback api (Some b) st =
             Inr (paContinue,
                  feed_recognizer api a
                    (st\<lparr>prev_input := u, prev_output := w, g_current_gain := g,
                        g_audio_buffer := buf\<rparr>))"
proof -
  from preprocessAudio_total [of b st] obtain a u w g where
    p: "preprocessAudio b st =
          Inr (a, st\<lparr>prev_input := u, prev_output := w, g_current_gain := g\<rparr>)"
    and la: "length a = length b" by blast
  have cap: "0 < capacity (g_audio_buffer st)" using assms(2,3) by linarith
  from push_reachable [OF assms(1) cap, of a] obtain buf where
    b: "push a (g_audio_buffer st) = Inr buf" "rb_reachable buf"
       "capacity buf = capacity (g_audio_buffer st)"
       "min (length a) (capacity (g_audio_buffer st)) \<le> count buf"
       "\<forall>n \<le> min (length a) (capacity (g_audio_buffer st)).
           getSmoothed n buf = Inr (drop (length a - n) a)"
    by blast
  have m: "min (length a) (capacity (g_audio_buffer st)) = length b"
    using la assms(3) by simp
  have gs: "getSmoothed (length b) buf = Inr a" using b(5) m la by simp
  have ne: "a \<noteq> []" using la assms(2) by auto
  have "paCallback api (Some b) st =
             Inr (paContinue,
                  feed_recognizer api a
                    (st\<lparr>prev_input := u, prev_output := w, g_current_gain := g,
                        g_audio_buffer := buf\<rparr>))"
    using assms(4,5) p b(1) gs ne by (simp add: paCallback_def)
  then show ?thesis using p la b(1,2,3,4) m gs by auto
qed

lemma gate_nonempty: "isAudioAboveNoiseGate b \<Longrightarrow> 0 < length b"
  using gate_zero_block [of b] by (cases b) auto

lemma paCallback_inv:
  assumes "session_inv st" "length b \<le> AUDIO_BUFFER_SIZE"
  shows "\<exists>res st'. paCallback api (Some b) st = Inr (res, st') \<and> session_inv st'"
proof (cases "isAudioAboveNoiseGate b \<and> \<not> g_request_stop st")
  case False
  then show ?thesis using assms(1) by (auto simp: paCallback_def)
next
  case True
  then have g: "isAudioAboveNoiseGate b" and ns: "\<not> g_request_stop st" by simp_all
  have r: "rb_reachable (g_audio_buffer st)" and c: "capacity (g_audio_buffer st) = AUDIO_BUFFER_SIZE"
    and f: "fallbacks st = 0"
    using assms(1) by (simp_all add: session_inv_def)
  have lc: "length b \<le> capacity (g_audio_buffer st)" using assms(2) c by simp
  from paCallback_passed [OF r gate_nonempty [OF g] lc g ns, of api]
  obtain a u w gn buf where
    1: "rb_reachable buf" "capacity buf = capacity (g_audio_buffer st)"
       "paCallback api (Some b) st =
             Inr (paContinue,
                  feed_recognizer api a
                    (st\<lparr>prev_input := u, prev_output := w, g_current_gain := gn,
                        g_audio_buffer := buf\<rparr>))"
    by blast
  have "session_inv (feed_recognizer api a
                    (st\<lparr>prev_input := u, prev_output := w, g_current_gain := gn,
                        g_audio_buffer := buf\<rparr>))"
    using 1(1,2) c f by (simp add: session_inv_def feed_recognizer_frame) (simp add: fallbacks_def)
  then show ?thesis using 1(3) by blast
qed

lemma FRAMES_le_BUFFER: "FRAMES_PER_BUFFER \<le> AUDIO_BUFFER_SIZE"
  by (simp add: FRAMES_PER_BUFFER_def AUDIO_BUFFER_SIZE_def)

lemma session_reachable_inv: "session_reachable api st \<Longrightarrow> session_inv st"
proof (induction rule: session_reachable.induct)
  case (start buf r)
  then have "rb_reachable buf" by (rule rb_new)
  moreover have "capacity buf = AUDIO_BUFFER_SIZE"
    using start by (auto simp: CircularBuffer_new_def split: if_splits)
  ultimately show ?case by (simp add: session_inv_def session_init_def fallbacks_def)
next
  case (quit st)
  then show ?case by (simp add: session_inv_def fallbacks_def)
next
  case (callback st b res st')
  from paCallback_inv [OF callback.IH, of b api] callback.hyps(2,3) FRAMES_le_BUFFER
  show ?case by auto
qed

text \<open>
  Claim C5, amended. For every block of positive length up to \<open>2 ^ 23\<close> samples,
  \<open>isAudioAboveNoiseGate\<close> returns true exactly when the real number
  \<open>sqrt(mean(sample_i^2))\<close> exceeds the threshold 500; for every all-zero block, of any
  length, it returns false. The function is pure: it returns a truth value and has no
  state to change.
\<close>

theorem noise_gate_is_rms_threshold:
  "(0 < length xs \<and> length xs \<le> 2 ^ 23 \<longrightarrow>
      (isAudioAboveNoiseGate xs \<longleftrightarrow> real_of_int NOISE_GATE_THRESHOLD < spec_rms xs)) \<and>
   ((\<forall>x \<in> set xs. x = 0) \<longrightarrow> \<not> isAudioAboveNoiseGate xs)"
  using gate_iff_rms [of xs] gate_zero_block [of xs] by (simp add: NOISE_GATE_THRESHOLD_def)

lemma spec_rms_example: "spec_rms [600, - 600] = 600"
proof -
  have "spec_rms [600, - 600] = sqrt (600\<^sup>2)"
    unfolding spec_rms_def by (simp add: power2_eq_square)
  then show ?thesis by simp
qed

text \<open>
  The block \<open>[600, -600]\<close> has RMS 600 and passes; three zero samples do not.
\<close>

theorem noise_gate_is_rms_threshold_witness:
  "0 < length [600, - 600 :: short] \<and> length [600, - 600 :: short] \<le> 2 ^ 23 \<and>
   real_of_int NOISE_GATE_THRESHOLD < spec_rms [600, - 600] \<and>
   isAudioAboveNoiseGate [600, - 600] \<and>
   set [0, 0, 0 :: short] = {0} \<and> \<not> isAudioAboveNoiseGate [0, 0, 0]"
proof -
  have 1: "real_of_int NOISE_GATE_THRESHOLD < spec_rms [600, - 600]"
    by (simp add: spec_rms_example NOISE_GATE_THRESHOLD_def)
  have 2: "0 < length [600, - 600 :: short] \<and> length [600, - 600 :: short] \<le> 2 ^ 23" by simp
  have 3: "isAudioAboveNoiseGate [600, - 600]"
    using noise_gate_is_rms_threshold [of "[600, - 600]"] 1 2 by blast
  have 4: "\<forall>x \<in> set [0, 0, 0 :: short]. x = 0" by simp
  have 5: "\<not> isAudioAboveNoiseGate [0, 0, 0]"
    using noise_gate_is_rms_threshold [of "[0, 0, 0]"] 4 by blast
  have 6: "set [0, 0, 0 :: short] = {0}" by simp
  show ?thesis using 1 2 3 5 6 by blast
qed

lemma paCallback_run_zero:
  assumes "\<forall>z \<in> set zs. \<forall>x \<in> set z. x = 0"
  shows "paCallback_run api (map Some zs) st = Inr st"
  using assms
proof (induction zs)
  case Nil
  then show ?case by simp
next
  case (Cons z zs)
  then have "\<not> isAudioAboveNoiseGate z" by (intro gate_zero_block) simp
  then show ?case using Cons by (simp add: paCallback_dropped)
qed

lemma rms_low_gate:
  assumes "0 < length b" "length b \<le> 2 ^ 23" "spec_rms b \<le> real_of_int NOISE_GATE_THRESHOLD"
  shows "\<not> isAudioAboveNoiseGate b"
  using gate_iff_rms [OF assms(1,2)] assms(3) by (simp add: NOISE_GATE_THRESHOLD_def)

text \<open>
  Claim C6, amended. When the gate rejects a block the callback returns with the
  session unchanged: filter state, gain, ring buffer, partial-result cache and the
  trace of recognizer submissions are those of before. The gate rejects every block
  of positive length at most \<open>2 ^ 23\<close> whose RMS is at or below the threshold, and
  every all-zero block of any length: any number of consecutive all-zero blocks
  leaves the session as it was.
\<close>

theorem gate_drops_block:
  "(\<not> isAudioAboveNoiseGate b \<longrightarrow>
      paCallback api (Some b) st =
        Inr (if g_request_stop st then paComplete else paContinue, st)) \<and>
   (0 < length b \<and> length b \<le> 2 ^ 23 \<and> spec_rms b \<le> real_of_int NOISE_GATE_THRESHOLD \<longrightarrow>
      paCallback api (Some b) st =
        Inr (if g_request_stop st then paComplete else paContinue, st)) \<and>
   ((\<forall>z \<in> set zs. \<forall>x \<in> set z. x = 0) \<longrightarrow>
      paCallback_run api (map Some zs) st = Inr st)"
  using paCallback_dropped [of b api st] rms_low_gate [of b] paCallback_run_zero [of zs api st]
  by blast

lemma spec_rms_example2: "spec_rms [300, - 300] = 300"
proof -
  have "spec_rms [300, - 300] = sqrt (300\<^sup>2)"
    unfolding spec_rms_def by (simp add: power2_eq_square)
  then show ?thesis by simp
qed

text \<open>
  A block of RMS 300 is dropped; three consecutive blocks of 512 zeros leave the
  initial session untouched, and its list of recognizer submissions is empty.
\<close>

theorem gate_drops_block_witness:
  "\<not> isAudioAboveNoiseGate [300, - 300] \<and>
   0 < length [300, - 300 :: short] \<and> length [300, - 300 :: short] \<le> 2 ^ 23 \<and>
   spec_rms [300, - 300] \<le> real_of_int NOISE_GATE_THRESHOLD \<and>
   paCallback null_api (Some [300, - 300]) session_start = Inr (paContinue, session_start) \<and>
   set (concat [replicate 512 0, replicate 512 0, replicate 512 (0 :: short)]) = {0} \<and>
   paCallback_run null_api
     (map Some [replicate 512 0, replicate 512 0, replicate 512 0]) session_start
     = Inr session_start \<and>
   submissions session_start = []"
proof -
  have 1: "spec_rms [300, - 300] \<le> real_of_int NOISE_GATE_THRESHOLD"
    by (simp add: spec_rms_example2 NOISE_GATE_THRESHOLD_def)
  have 2: "0 < length [300, - 300 :: short] \<and> length [300, - 300 :: short] \<le> 2 ^ 23" by simp
  have ns: "\<not> g_request_stop session_start"
    by (simp add: session_start_def session_init_def)
  have 3: "paCallback null_api (Some [300, - 300]) session_start = Inr (paContinue, session_start)"
    using gate_drops_block [of "[300, - 300]" null_api session_start] 1 2 ns by simp
  have 4: "\<not> isAudioAboveNoiseGate [300, - 300]"
    using rms_low_gate [of "[300, - 300]"] 1 2 by blast
  have 5: "\<forall>z \<in> set [replicate 512 0, replicate 512 0, replicate 512 (0 :: short)]. \<forall>x \<in> set z. x = 0"
    by simp
  have 6: "paCallback_run null_api
     (map Some [replicate 512 0, replicate 512 0, replicate 512 0]) session_start
     = Inr session_start"
    using gate_drops_block [of _ null_api session_start
        "[replicate 512 0, replicate 512 0, replicate 512 0]"] 5 by blast
  have 7: "submissions session_start = []"
    by (simp add: session_start_def session_init_def submissions_def)
  have 8: "set (concat [replicate 512 0, replicate 512 0, replicate 512 (0 :: short)]) = {0}"
    by simp
  show ?thesis using 1 2 3 4 6 7 8 by blast
qed




text \<open>
  Claim C10. In every session the program can reach with blocks of
  \<open>FRAMES_PER_BUFFER\<close> samples, no callback has taken the fallback branch, and the
  next callback on such a block returns without fault and without taking it either:
  after the push the occupied count is at least \<open>FRAMES_PER_BUFFER\<close> and
  \<open>getSmoothed(FRAMES_PER_BUFFER)\<close> returns the block just pushed, which is not empty.
\<close>

theorem fallback_unreachable:
  assumes "session_reachable api st"
  shows "fallbacks st = 0 \<and>
         (\<forall>b. length b = FRAMES_PER_BUFFER \<longrightarrow>
            (\<exists>res st'. paCallback api (Some b) st = Inr (res, st') \<and> fallbacks st' = 0) \<and>
            (\<exists>buf. push b (g_audio_buffer st) = Inr buf \<and> FRAMES_PER_BUFFER \<le> count buf \<and>
                   getSmoothed FRAMES_PER_BUFFER buf = Inr b \<and> b \<noteq> []))"
proof -
  have inv: "session_inv st" by (rule session_reachable_inv [OF assms])
  then have r: "rb_reachable (g_audio_buffer st)"
    and c: "capacity (g_audio_buffer st) = AUDIO_BUFFER_SIZE"
    and f: "fallbacks st = 0" by (simp_all add: session_inv_def)
  have cp: "0 < capacity (g_audio_buffer st)" using c by (simp add: AUDIO_BUFFER_SIZE_def)
  have A: "\<exists>res st'. paCallback api (Some b) st = Inr (res, st') \<and> fallbacks st' = 0"
    if "length b = FRAMES_PER_BUFFER" for b
    using paCallback_inv [OF inv, of b api] that FRAMES_le_BUFFER
    by (auto simp: session_inv_def)
  have B: "\<exists>buf. push b (g_audio_buffer st) = Inr buf \<and> FRAMES_PER_BUFFER \<le> count buf \<and>
                   getSmoothed FRAMES_PER_BUFFER buf = Inr b \<and> b \<noteq> []"
    if l: "length b = FRAMES_PER_BUFFER" for b
  proof -
    from push_reachable [OF r cp, of b] obtain buf where
      b: "push b (g_audio_buffer st) = Inr buf"
         "min (length b) (capacity (g_audio_buffer st)) \<le> count buf"
         "\<forall>n \<le> min (length b) (capacity (g_audio_buffer st)).
             getSmoothed n buf = Inr (drop (length b - n) b)"
      by blast
    have m: "min (length b) (capacity (g_audio_buffer st)) = FRAMES_PER_BUFFER"
      using l c FRAMES_le_BUFFER by simp
    have "getSmoothed FRAMES_PER_BUFFER buf = Inr b" using b(3) m l by simp
    moreover have "b \<noteq> []" using l by (auto simp: FRAMES_PER_BUFFER_def)
    ultimately show ?thesis using b(1,2) m by auto
  qed
  show ?thesis using f A B by blast
qed

text \<open>
  The initial session and a block of 512 samples of 1000.
\<close>

theorem fallback_unreachable_witness:
  "session_reachable null_api session_start \<and> fallbacks session_start = 0 \<and>
   length (replicate 512 (1000 :: short)) = FRAMES_PER_BUFFER \<and>
   (\<exists>res st'. paCallback null_api (Some (replicate 512 1000)) session_start = Inr (res, st') \<and>
      fallbacks st' = 0) \<and>
   (\<exists>buf. push (replicate 512 1000) (g_audio_buffer session_start) = Inr buf \<and>
       FRAMES_PER_BUFFER \<le> count buf \<and>
       getSmoothed FRAMES_PER_BUFFER buf = Inr (replicate 512 1000))"
proof -
  have n: "CircularBuffer_new AUDIO_BUFFER_SIZE =
      Inr \<lparr>buffer = replicate AUDIO_BUFFER_SIZE 0, head = 0, tail = 0, count = 0,
           capacity = AUDIO_BUFFER_SIZE\<rparr>"
    by (simp add: CircularBuffer_new_def AUDIO_BUFFER_SIZE_def vector_max_size_def)
  have r: "session_reachable null_api session_start"
    unfolding session_start_def by (rule start [OF n])
  have l: "length (replicate 512 (1000 :: short)) = FRAMES_PER_BUFFER"
    by (simp add: FRAMES_PER_BUFFER_def)
  show ?thesis using fallback_unreachable [OF r] r l by blast
qed

lemma sum_squares_append: "sum_squares (xs @ ys) = sum_squares xs + sum_squares ys"
  by (simp add: sum_squares_def)

lemma sum_squares_replicate: "sum_squares (replicate n x) = int n * (sint x * sint x)"
  by (induction n) (simp_all add: sum_squares_def algebra_simps)

lemma f64_stuck: "fadd f64 (Fin 9007199254740992) (double_of_int 1) = Fin 9007199254740992"
  by (simp add: double_of_int_def ev)

lemma gate_sum_stuck:
  "foldl (\<lambda>r x. fadd f64 r (double_of_int (sint x * sint x))) (Fin 9007199254740992)
     (replicate m (1 :: short)) = Fin 9007199254740992"
  by (induction m) (simp_all add: f64_stuck)

lemma huge_block_length: "length huge_block = 36028797019"
  by (simp add: huge_block_def)

lemma huge_block_sum_squares: "sum_squares huge_block = 9007235275149403"
  by (simp add: huge_block_def sum_squares_append sum_squares_replicate)

lemma huge_block_float_sum:
  "isAudioAboveNoiseGate_loop huge_block 0 (Fin 0) = Fin 9007199254740992"
proof -
  have "length (replicate 8388608 (- 32768 :: short)) \<le> 2 ^ 23" by simp
  from gate_sum_exact [OF this]
  have "foldl (\<lambda>r x. fadd f64 r (double_of_int (sint x * sint x))) (Fin 0)
          (replicate 8388608 (- 32768 :: short)) = Fin 9007199254740992"
    by (simp add: gate_loop_foldl sum_squares_replicate)
  then show ?thesis
    by (simp add: gate_loop_foldl huge_block_def gate_sum_stuck)
qed

text \<open>
  Claim C5 as stated (every block of positive length) fails on a block too long for
  the double-precision sum to stay exact: \<open>2 ^ 23\<close> samples of \<open>-32768\<close> bring the sum to
  \<open>2 ^ 53\<close>, after which adding 1 changes nothing. With 36020408411 further samples
  of 1 the computed mean is below 250000 and the gate is closed, while the real RMS
  is above 500.
\<close>

theorem noise_gate_huge_block_counterexample:
  "0 < length huge_block \<and> \<not> isAudioAboveNoiseGate huge_block \<and>
   real_of_int NOISE_GATE_THRESHOLD < spec_rms huge_block"
proof -
  have n: "double_of_ulong (length huge_block) = Fin 36028797019"
    using double_of_ulong_exact [of 36028797019] by (simp add: huge_block_length)
  have q: "(9007199254740992 :: real) / 36028797019 \<le> 250000" by simp
  have "\<not> flt (Fin 500) (fsqrt f64 (f64 (9007199254740992 / 36028797019)))"
    by (rule gate_below [OF _ q]) simp
  then have 1: "\<not> isAudioAboveNoiseGate huge_block"
    using f64_int [of 500]
    by (simp add: isAudioAboveNoiseGate_def Let_def huge_block_float_sum n double_of_int_def
        NOISE_GATE_THRESHOLD_def)
  have "(500::real)\<^sup>2 < 9007235275149403 / 36028797019" by simp
  then have "500 < sqrt (9007235275149403 / 36028797019)" by (rule real_less_rsqrt)
  then have 2: "real_of_int NOISE_GATE_THRESHOLD < spec_rms huge_block"
    by (simp add: spec_rms_sum_squares huge_block_sum_squares huge_block_length
        NOISE_GATE_THRESHOLD_def)
  show ?thesis using 1 2 by (simp add: huge_block_length)
qed

section \<open>The pipeline on a constant block of amplitude 1000\<close>

lemma sint_short_of_int:
  assumes "- 32768 \<le> t" "t \<le> 32767"
  shows "sint (word_of_int t :: short) = t"
  using assms by (simp add: sint_sbintrunc' signed_take_bit_int_eq_self)

lemma abs_sint_stored:
  "\<bar>sint (stored_sample (Fin y))\<bar> = \<bar>trunc (max (- 32768) (min 32767 y))\<bar>"
proof -
  let ?c = "max (- 32768) (min 32767 y)"
  have "- 32768 \<le> trunc ?c" "trunc ?c \<le> 32767" by (rule trunc_mono_bounds; simp)+
  then show ?thesis by (simp add: sint_short_of_int)
qed

lemma float_1000: "float_of_int 1000 = Fin 1000"
  using f32_int [of 1000] by (simp add: float_of_int_def)

lemma dc_step_Fin:
  "dc_step (Fin y) =
     fmul f32 (Fin (15938355 / 16777216)) (fsub f32 (fadd f32 (Fin y) (Fin 1000)) (Fin 1000))"
  by (simp add: dc_step_def hp_output_def alpha_value float_1000)

lemma dc_run_numeral:
  "dc_run (numeral k) y =
     (case dc_run (pred_numeral k) (dc_step y) of
        (s, z) \<Rightarrow> (\<bar>sint (stored_sample (dc_step y))\<bar> + s, z))"
  by (simp add: numeral_eq_Suc)

lemma dc_run_1:
  "dc_run 1 y = (\<bar>sint (stored_sample (dc_step y))\<bar>, dc_step y)"
  by simp

lemmas dc_ev = dc_run_numeral dc_run_1 dc_step_Fin fsub_def trunc_def ev

text \<open>The first 288 steps after the first sample, sixteen at a time.\<close>

lemma dc_chunk_1:
  "dc_run 16 (Fin 950) = (10099, Fin (3425241 / 8192))"
  by (simp add: dc_ev)

lemma dc_chunk_2:
  "dc_run 16 (Fin (3425241 / 8192)) = (4439, Fin (6030159 / 32768))"
  by (simp add: dc_ev)

lemma dc_chunk_3:
  "dc_run 16 (Fin (6030159 / 32768)) = (1949, Fin (1327017 / 16384))"
  by (simp add: dc_ev)

lemma dc_chunk_4:
  "dc_run 16 (Fin (1327017 / 16384)) = (853, Fin (9344869 / 262144))"
  by (simp add: dc_ev)

lemma dc_chunk_5:
  "dc_run 16 (Fin (9344869 / 262144)) = (372, Fin (8225875 / 524288))"
  by (simp add: dc_ev)

lemma dc_chunk_6:
  "dc_run 16 (Fin (8225875 / 524288)) = (158, Fin (14481587 / 2097152))"
  by (simp add: dc_ev)

lemma dc_chunk_7:
  "dc_run 16 (Fin (14481587 / 2097152)) = (66, Fin (199177 / 65536))"
  by (simp add: dc_ev)

lemma dc_chunk_8:
  "dc_run 16 (Fin (199177 / 65536)) = (24, Fin (11220761 / 8388608))"
  by (simp add: dc_ev)

lemma dc_chunk_9:
  "dc_run 16 (Fin (11220761 / 8388608)) = (5, Fin (9877811 / 16777216))"
  by (simp add: dc_ev)

lemma dc_chunk_10:
  "dc_run 16 (Fin (9877811 / 16777216)) = (0, Fin (8692941 / 33554432))"
  by (simp add: dc_ev)

lemma dc_chunk_11:
  "dc_run 16 (Fin (8692941 / 33554432)) = (0, Fin (7650099 / 67108864))"
  by (simp add: dc_ev)

lemma dc_chunk_12:
  "dc_run 16 (Fin (7650099 / 67108864)) = (0, Fin (13479117 / 268435456))"
  by (simp add: dc_ev)

lemma dc_chunk_13:
  "dc_run 16 (Fin (13479117 / 268435456)) = (0, Fin (11891507 / 536870912))"
  by (simp add: dc_ev)

lemma dc_chunk_14:
  "dc_run 16 (Fin (11891507 / 536870912)) = (0, Fin (10521805 / 1073741824))"
  by (simp add: dc_ev)

lemma dc_chunk_15:
  "dc_run 16 (Fin (10521805 / 1073741824)) = (0, Fin (9214361 / 2147483648))"
  by (simp add: dc_ev)

lemma dc_chunk_16:
  "dc_run 16 (Fin (9214361 / 2147483648)) = (0, Fin (15938355 / 8589934592))"
  by (simp add: dc_ev)

lemma dc_chunk_17:
  "dc_run 16 (Fin (15938355 / 8589934592)) = (0, Fin (13946061 / 17179869184))"
  by (simp add: dc_ev)

lemma dc_chunk_18:
  "dc_run 16 (Fin (13946061 / 17179869184)) = (0, Fin (19 / 32768))"
  by (simp add: dc_ev)

lemma dc_step_fix: "dc_step (Fin (19 / 32768)) = Fin (19 / 32768)"
  by (simp add: dc_ev)

lemma stored_fix: "stored_sample (Fin (19 / 32768)) = 0"
  by (simp add: trunc_def)

lemma dc_run_fix: "dc_run n (Fin (19 / 32768)) = (0, Fin (19 / 32768))"
  by (induction n) (simp_all add: dc_step_fix trunc_def)

lemma dc_outs_fix: "dc_outs n (Fin (19 / 32768)) = replicate n 0"
  by (induction n) (simp_all add: dc_step_fix trunc_def)

lemma dc_run_add:
  "dc_run (m + n) y =
     (case dc_run m y of (s1, y1) \<Rightarrow> case dc_run n y1 of (s2, y2) \<Rightarrow> (s1 + s2, y2))"
  by (induction m arbitrary: y) (simp_all split: prod.splits)

lemma dc_run_chunk:
  assumes "dc_run 16 y = (s, z)" "dc_run n z = (s', z')" "k = 16 + n" "t = s + s'"
  shows "dc_run k y = (t, z')"
  using assms dc_run_add [of 16 n y] by simp

lemma dc_run_511: "dc_run 511 (Fin 950) = (17965, Fin (19 / 32768))"
proof -
  have r18: "dc_run 223 (Fin (19 / 32768)) = (0, Fin (19 / 32768))" by (rule dc_run_fix)
  have r17: "dc_run 239 (Fin (13946061 / 17179869184)) = (0, Fin (19 / 32768))"
    by (rule dc_run_chunk [OF dc_chunk_18 r18]) simp_all
  have r16: "dc_run 255 (Fin (15938355 / 8589934592)) = (0, Fin (19 / 32768))"
    by (rule dc_run_chunk [OF dc_chunk_17 r17]) simp_all
  have r15: "dc_run 271 (Fin (9214361 / 2147483648)) = (0, Fin (19 / 32768))"
    by (rule dc_run_chunk [OF dc_chunk_16 r16]) simp_all
  have r14: "dc_run 287 (Fin (10521805 / 1073741824)) = (0, Fin (19 / 32768))"
    by (rule dc_run_chunk [OF dc_chunk_15 r15]) simp_all
  have r13: "dc_run 303 (Fin (11891507 / 536870912)) = (0, Fin (19 / 32768))"
    by (rule dc_run_chunk [OF dc_chunk_14 r14]) simp_all
  have r12: "dc_run 319 (Fin (13479117 / 268435456)) = (0, Fin (19 / 32768))"
    by (rule dc_run_chunk [OF dc_chunk_13 r13]) simp_all
  have r11: "dc_run 335 (Fin (7650099 / 67108864)) = (0, Fin (19 / 32768))"
    by (rule dc_run_chunk [OF dc_chunk_12 r12]) simp_all
  have r10: "dc_run 351 (Fin (8692941 / 33554432)) = (0, Fin (19 / 32768))"
    by (rule dc_run_chunk [OF dc_chunk_11 r11]) simp_all
  have r9: "dc_run 367 (Fin (9877811 / 16777216)) = (0, Fin (19 / 32768))"
    by (rule dc_run_chunk [OF dc_chunk_10 r10]) simp_all
  have r8: "dc_run 383 (Fin (11220761 / 8388608)) = (5, Fin (19 / 32768))"
    by (rule dc_run_chunk [OF dc_chunk_9 r9]) simp_all
  have r7: "dc_run 399 (Fin (199177 / 65536)) = (29, Fin (19 / 32768))"
    by (rule dc_run_chunk [OF dc_chunk_8 r8]) simp_all
  have r6: "dc_run 415 (Fin (14481587 / 2097152)) = (95, Fin (19 / 32768))"
    by (rule dc_run_chunk [OF dc_chunk_7 r7]) simp_all
  have r5: "dc_run 431 (Fin (8225875 / 524288)) = (253, Fin (19 / 32768))"
    by (rule dc_run_chunk [OF dc_chunk_6 r6]) simp_all
  have r4: "dc_run 447 (Fin (9344869 / 262144)) = (625, Fin (19 / 32768))"
    by (rule dc_run_chunk [OF dc_chunk_5 r5]) simp_all
  have r3: "dc_run 463 (Fin (1327017 / 16384)) = (1478, Fin (19 / 32768))"
    by (rule dc_run_chunk [OF dc_chunk_4 r4]) simp_all
  have r2: "dc_run 479 (Fin (6030159 / 32768)) = (3427, Fin (19 / 32768))"
    by (rule dc_run_chunk [OF dc_chunk_3 r3]) simp_all
  have r1: "dc_run 495 (Fin (3425241 / 8192)) = (7866, Fin (19 / 32768))"
    by (rule dc_run_chunk [OF dc_chunk_2 r2]) simp_all
  have r0: "dc_run 511 (Fin 950) = (17965, Fin (19 / 32768))"
    by (rule dc_run_chunk [OF dc_chunk_1 r1]) simp_all
  show ?thesis by (rule r0)
qed

lemma sint_1000: "sint (1000 :: short) = 1000"
  by simp

lemma hp_run_dc:
  "hp_run (replicate n 1000) (Fin 1000) y = (dc_outs n y, Fin 1000, snd (dc_run n y))"
  by (induction n arbitrary: y)
     (simp_all add: float_1000 dc_step_def [symmetric] split: prod.splits)

lemma sum_abs_dc_outs: "sum_abs (dc_outs n y) = fst (dc_run n y)"
  by (induction n arbitrary: y) (simp_all add: sum_abs_def split: prod.splits)

lemma length_dc_outs: "length (dc_outs n y) = n"
  by (induction n arbitrary: y) simp_all

lemma hp_first_output: "hp_output (Fin 0) (Fin 0) 1000 = Fin 950"
  by (simp add: hp_output_def alpha_value float_1000 fsub_def ev)

lemma dc_block_Cons: "dc_block = 1000 # replicate 511 1000"
proof -
  have "replicate (Suc 511) (1000 :: short) = 1000 # replicate 511 1000" by (rule replicate_Suc)
  then show ?thesis by (simp add: dc_block_def FRAMES_PER_BUFFER_def)
qed

lemma hp_run_first_block:
  "hp_run dc_block (Fin 0) (Fin 0) =
     (950 # dc_outs 511 (Fin 950), Fin 1000, Fin (19 / 32768))"
  by (simp add: dc_block_Cons hp_first_output float_1000 hp_run_dc dc_run_511 trunc_def)

lemma sum_abs_first_block: "sum_abs (950 # dc_outs 511 (Fin 950)) = 18915"
proof -
  have "sum_abs (950 # dc_outs 511 (Fin 950)) = 950 + sum_abs (dc_outs 511 (Fin 950))"
    by (simp add: sum_abs_def)
  then show ?thesis by (simp add: sum_abs_dc_outs dc_run_511)
qed

lemma hp_run_later_block:
  "hp_run dc_block (Fin 1000) (Fin (19 / 32768)) =
     (replicate FRAMES_PER_BUFFER 0, Fin 1000, Fin (19 / 32768))"
  by (simp add: dc_block_def hp_run_dc dc_outs_fix dc_run_fix)

lemma agc_level_exact:
  assumes "length xs \<le> 2 ^ 38"
  shows "agc_current_level xs =
           fdiv f64 (Fin (real_of_int (sum_abs xs))) (double_of_ulong (length xs))"
proof -
  have "int (length xs) * 2 ^ 15 \<le> 2 ^ 38 * 2 ^ 15" using assms by simp
  then have b: "0 + sum_abs xs \<le> 2 ^ 53" using sum_abs_bounds(2) [of xs] by simp
  have "foldl (\<lambda>r x. fadd f64 r (double_of_int \<bar>sint x\<bar>)) (Fin (of_int 0)) xs
          = Fin (of_int (0 + sum_list (map (\<lambda>x. \<bar>sint x\<bar>) xs)))"
    using b by (intro f64_sum_exact) (simp_all add: sum_abs_def)
  then show ?thesis by (simp add: agc_current_level_def sum_abs_def)
qed

lemma agc_first_block_level:
  "agc_current_level (950 # dc_outs 511 (Fin 950)) = Fin (18915 / 512)"
proof -
  have l: "length (950 # dc_outs 511 (Fin 950)) = 512" by (simp add: length_dc_outs)
  have "agc_current_level (950 # dc_outs 511 (Fin 950)) =
          fdiv f64 (Fin (real_of_int (sum_abs (950 # dc_outs 511 (Fin 950)))))
            (double_of_ulong (length (950 # dc_outs 511 (Fin 950))))"
    by (rule agc_level_exact) (simp add: length_dc_outs)
  also have "\<dots> = fdiv f64 (Fin 18915) (double_of_ulong 512)"
    by (simp only: sum_abs_first_block l) simp
  also have "\<dots> = Fin (18915 / 512)"
    by (simp add: double_of_ulong_def ev)
  finally show ?thesis .
qed

lemma agc_first_block_gain: "agc_new_gain (Fin (18915 / 512)) (Fin 1) = Fin 10"
  by (simp add: agc_new_gain_def double_of_int_def AGC_TARGET_LEVEL_def AGC_ADJUSTMENT_RATE_def
      fsub_def std_max_def std_min_def ev)

lemma spec_rms_dc_block: "spec_rms dc_block = 1000"
proof -
  have "sum_squares dc_block = 512 * 1000000"
    by (simp add: dc_block_def FRAMES_PER_BUFFER_def sum_squares_replicate)
  then have "spec_rms dc_block = sqrt (1000\<^sup>2)"
    by (simp add: spec_rms_sum_squares dc_block_def FRAMES_PER_BUFFER_def)
  then show ?thesis by simp
qed

lemma gate_dc_block: "isAudioAboveNoiseGate dc_block"
proof -
  have "0 < length dc_block" "length dc_block \<le> 2 ^ 23"
    by (simp_all add: dc_block_def FRAMES_PER_BUFFER_def)
  from gate_iff_rms [OF this] show ?thesis by (simp add: spec_rms_dc_block)
qed

lemma length_dc_block: "length dc_block = FRAMES_PER_BUFFER"
  by (simp add: dc_block_def)

lemma preprocess_first_block:
  assumes "prev_input st = Fin 0" "prev_output st = Fin 0" "g_current_gain st = Fin 1"
  shows "\<exists>a. preprocessAudio dc_block st =
           Inr (a, st\<lparr>prev_input := Fin 1000, prev_output := Fin (19 / 32768),
                       g_current_gain := Fin 10\<rparr>)"
  using assms
  by (simp add: preprocessAudio_def applyHighPassFilter_run hp_run_first_block applyAGC_alt
      agc_first_block_level agc_first_block_gain)

lemma spec_level_zero_block: "spec_level (replicate n 0) = 0"
proof -
  have "sum_abs (replicate n 0) = 0" by (induction n) (simp_all add: sum_abs_def)
  then show ?thesis by (simp add: spec_level_sum_abs)
qed

lemma applyAGC_zero_block: "applyAGC (replicate n 0) g = Inr (replicate n 0, g)"
  using agc_level_zero_not_positive [OF spec_level_zero_block, of n]
  by (simp add: applyAGC_alt)

lemma preprocess_later_block:
  assumes "prev_input st = Fin 1000" "prev_output st = Fin (19 / 32768)"
  shows "preprocessAudio dc_block st =
           Inr (replicate FRAMES_PER_BUFFER 0,
                st\<lparr>prev_input := Fin 1000, prev_output := Fin (19 / 32768),
                    g_current_gain := g_current_gain st\<rparr>)"
  using assms
  by (simp add: preprocessAudio_def applyHighPassFilter_run hp_run_later_block
      applyAGC_zero_block)

lemma paCallback_dc_block:
  assumes "session_inv st" "\<not> g_request_stop st"
    and "preprocessAudio dc_block st =
           Inr (a, st\<lparr>prev_input := Fin 1000, prev_output := Fin (19 / 32768),
                       g_current_gain := Fin 10\<rparr>)"
  shows "\<exists>st'. paCallback api (Some dc_block) st = Inr (paContinue, st') \<and> dc_saturated st'"
proof -
  have r: "rb_reachable (g_audio_buffer st)"
    and c: "capacity (g_audio_buffer st) = AUDIO_BUFFER_SIZE"
    and f: "fallbacks st = 0"
    using assms(1) by (simp_all add: session_inv_def)
  have l: "0 < length dc_block" "length dc_block \<le> capacity (g_audio_buffer st)"
    using c by (simp_all add: dc_block_def FRAMES_PER_BUFFER_def AUDIO_BUFFER_SIZE_def)
  from paCallback_passed [OF r l gate_dc_block assms(2), of api]
  obtain a' u w g buf where
    p: "preprocessAudio dc_block st =
          Inr (a', st\<lparr>prev_input := u, prev_output := w, g_current_gain := g\<rparr>)"
    and b: "rb_reachable buf" "capacity buf = capacity (g_audio_buffer st)"
    and cb: "paCallback api (Some dc_block) st =
             Inr (paContinue,
                  feed_recognizer api a'
                    (st\<lparr>prev_input := u, prev_output := w, g_current_gain := g,
                        g_audio_buffer := buf\<rparr>))"
    by blast
  let ?st1 = "st\<lparr>prev_input := u, prev_output := w, g_current_gain := g\<rparr>"
  let ?st2 = "st\<lparr>prev_input := Fin 1000, prev_output := Fin (19 / 32768),
                       g_current_gain := Fin 10\<rparr>"
  have e: "?st1 = ?st2" using p assms(3) by simp
  have u: "u = Fin 1000" using arg_cong [OF e, of prev_input] by simp
  have w: "w = Fin (19 / 32768)" using arg_cong [OF e, of prev_output] by simp
  have g: "g = Fin 10" using arg_cong [OF e, of g_current_gain] by simp
  let ?st' = "feed_recognizer api a'
                    (st\<lparr>prev_input := u, prev_output := w, g_current_gain := g,
                        g_audio_buffer := buf\<rparr>)"
  have "dc_saturated ?st'"
    using b c f assms(2) u w g
    by (simp add: dc_saturated_def session_inv_def feed_recognizer_frame)
       (simp add: fallbacks_def)
  then show ?thesis using cb by blast
qed

lemma paCallback_first:
  assumes "session_inv st" "\<not> g_request_stop st"
    and "prev_input st = Fin 0" "prev_output st = Fin 0" "g_current_gain st = Fin 1"
  shows "\<exists>st'. paCallback api (Some dc_block) st = Inr (paContinue, st') \<and> dc_saturated st'"
proof -
  from preprocess_first_block [OF assms(3-5)] obtain a where
    "preprocessAudio dc_block st =
           Inr (a, st\<lparr>prev_input := Fin 1000, prev_output := Fin (19 / 32768),
                       g_current_gain := Fin 10\<rparr>)" by blast
  from paCallback_dc_block [OF assms(1,2) this] show ?thesis .
qed

lemma paCallback_later:
  assumes "dc_saturated st"
  shows "\<exists>st'. paCallback api (Some dc_block) st = Inr (paContinue, st') \<and> dc_saturated st'"
proof -
  have i: "session_inv st" and s: "\<not> g_request_stop st"
    and u: "prev_input st = Fin 1000" and w: "prev_output st = Fin (19 / 32768)"
    and g: "g_current_gain st = Fin 10"
    using assms by (simp_all add: dc_saturated_def)
  have "preprocessAudio dc_block st =
           Inr (replicate FRAMES_PER_BUFFER 0,
                st\<lparr>prev_input := Fin 1000, prev_output := Fin (19 / 32768),
                    g_current_gain := Fin 10\<rparr>)"
    using preprocess_later_block [OF u w] g by simp
  from paCallback_dc_block [OF i s this] show ?thesis .
qed

lemma run_saturated:
  assumes "dc_saturated st"
  shows "\<exists>st'. paCallback_run api (replicate k (Some dc_block)) st = Inr st' \<and> dc_saturated st'"
  using assms
proof (induction k arbitrary: st)
  case 0
  then show ?case by simp
next
  case (Suc k)
  from paCallback_later [OF Suc.prems, of api] obtain st1 where
    1: "paCallback api (Some dc_block) st = Inr (paContinue, st1)" "dc_saturated st1" by blast
  from Suc.IH [OF 1(2)] 1(1) show ?case by simp
qed

lemma session_init_inv:
  assumes "CircularBuffer_new AUDIO_BUFFER_SIZE = Inr buf"
  shows "session_inv (session_init buf r)"
proof -
  have "session_reachable api (session_init buf r)" for api :: "'a vosk_api"
    by (rule start [OF assms])
  then show ?thesis by (rule session_reachable_inv)
qed

lemma run_from_start:
  assumes "CircularBuffer_new AUDIO_BUFFER_SIZE = Inr buf" "0 < k"
  shows "\<exists>st. paCallback_run api (replicate k (Some dc_block)) (session_init buf r) = Inr st \<and>
              dc_saturated st"
proof -
  obtain j where k: "k = Suc j" using assms(2) by (cases k) auto
  let ?s = "session_init buf r"
  have f1: "f32 1 = Fin 1" using f32_int [of 1] by simp
  have "\<exists>st'. paCallback api (Some dc_block) ?s = Inr (paContinue, st') \<and> dc_saturated st'"
    by (rule paCallback_first [OF session_init_inv [OF assms(1)]])
       (simp_all add: session_init_def g_current_gain_init_def f1)
  then obtain st1 where
    1: "paCallback api (Some dc_block) ?s = Inr (paContinue, st1)" "dc_saturated st1" by blast
  from run_saturated [OF 1(2), of api j] 1(1) show ?thesis by (simp add: k)
qed

lemma new_buffer:
  "CircularBuffer_new AUDIO_BUFFER_SIZE =
      Inr \<lparr>buffer = replicate AUDIO_BUFFER_SIZE 0, head = 0, tail = 0, count = 0,
           capacity = AUDIO_BUFFER_SIZE\<rparr>"
  by (simp add: CircularBuffer_new_def AUDIO_BUFFER_SIZE_def vector_max_size_def)

lemma gain_after_pos: "0 < k \<Longrightarrow> gain_after k = Fin 10"
  using run_from_start [OF new_buffer, of k null_api "()"]
  by (auto simp: gain_after_def session_start_def dc_saturated_def)

lemma gain_after_0: "gain_after 0 = Fin 1"
  using f32_int [of 1]
  by (simp add: gain_after_def session_start_def session_init_def g_current_gain_init_def)

text \<open>
  Claim C4 as stated fails: in the scenario of the claim the gain is 1 before the
  first block and 10 after it, a single change of 9 that passes 8.0; after 2, 3 and
  1000 blocks it is still 10, so it does not approach 8.0.
\<close>

theorem dc_block_gain_counterexample:
  "gain_after 0 = Fin 1 \<and> gain_after 1 = Fin 10 \<and> gain_after 2 = Fin 10 \<and>
   gain_after 3 = Fin 10 \<and> gain_after 1000 = Fin 10"
  by (simp add: gain_after_0 gain_after_pos)

text \<open>
  Claim C4, as the code has it. From the initial session (filter state zero, gain
  \<open>1.0f\<close>), feed the callback the block of \<open>FRAMES_PER_BUFFER\<close> samples of the constant
  1000 any number \<open>k \<ge> 1\<close> of times. Every callback returns without fault, and after
  each of them the gain is exactly \<open>10.0f\<close>, the upper clamp limit: the high-pass filter
  runs before the gain control and removes the constant, so the first filtered block
  has mean magnitude \<open>18915 / 512\<close> (about 36.9), the target gain is about 216 and the
  smoothed gain \<open>1 + 0.1 * (216.6 - 1)\<close> is clamped to 10; every later filtered block is
  all zeros, its level is 0 and the gain is left alone. The filter state stays at
  \<open>(1000, 19 / 32768)\<close>.
\<close>

theorem dc_block_gain_saturates:
  assumes "CircularBuffer_new AUDIO_BUFFER_SIZE = Inr buf" "0 < k"
  shows "\<exists>st. paCallback_run api (replicate k (Some (replicate FRAMES_PER_BUFFER 1000)))
                 (session_init buf r) = Inr st \<and>
              g_current_gain st = Fin 10 \<and>
              prev_input st = Fin 1000 \<and> prev_output st = Fin (19 / 32768)"
  using run_from_start [OF assms, of api r]
  by (auto simp: dc_saturated_def dc_block_def)

text \<open>
  Three callbacks on the block, with a recognizer that accepts nothing.
\<close>

theorem dc_block_gain_saturates_witness:
  "CircularBuffer_new AUDIO_BUFFER_SIZE =
      Inr \<lparr>buffer = replicate AUDIO_BUFFER_SIZE 0, head = 0, tail = 0, count = 0,
           capacity = AUDIO_BUFFER_SIZE\<rparr> \<and> (0 :: nat) < 3 \<and>
   (\<exists>st. paCallback_run null_api (replicate 3 (Some (replicate FRAMES_PER_BUFFER 1000)))
           session_start = Inr st \<and>
         g_current_gain st = Fin 10 \<and>
         prev_input st = Fin 1000 \<and> prev_output st = Fin (19 / 32768))"
proof -
  have "(0 :: nat) < 3" by simp
  from dc_block_gain_saturates [OF new_buffer this, of null_api "()"] new_buffer
  show ?thesis by (simp add: session_start_def)
qed

section \<open>The filter on constant input: rounding error and decay\<close>

lemma rv_error: "\<bar>rv p emn x - x\<bar> \<le> 2 powi fexp p emn x / 2"
proof -
  let ?q = "(2::real) powi fexp p emn x"
  have q: "0 < ?q" by (rule powi2_pos)
  have "rv p emn x - x = (of_int (rne (x / ?q)) - x / ?q) * ?q"
    using q by (simp add: rv_def algebra_simps)
  then have "\<bar>rv p emn x - x\<bar> = \<bar>of_int (rne (x / ?q)) - x / ?q\<bar> * ?q"
    using q by (simp add: abs_mult)
  also have "\<dots> \<le> (1 / 2) * ?q"
    using rne_error [of "x / ?q"] q by (intro mult_right_mono) simp_all
  finally show ?thesis by simp
qed

lemma fexp_bound:
  assumes "x \<noteq> 0"
  shows "2 powi fexp p emn x \<le> \<bar>x\<bar> * 2 powi (1 - int p) + 2 powi (emn - int p + 1)"
proof (cases "emn \<le> ilog2 \<bar>x\<bar>")
  case True
  have x: "0 < \<bar>x\<bar>" using assms by simp
  have "fexp p emn x = ilog2 \<bar>x\<bar> + (1 - int p)" using True by (simp add: fexp_def)
  then have "(2::real) powi fexp p emn x = 2 powi ilog2 \<bar>x\<bar> * 2 powi (1 - int p)"
    by (simp add: power_int_add)
  also have "\<dots> \<le> \<bar>x\<bar> * 2 powi (1 - int p)"
    using ilog2_bounds [OF x] powi2_pos [of "1 - int p"] by (intro mult_right_mono) simp_all
  finally show ?thesis using powi2_pos [of "emn - int p + 1"] by linarith
next
  case False
  then have "fexp p emn x = emn - int p + 1" by (simp add: fexp_def)
  moreover have "0 \<le> \<bar>x\<bar> * 2 powi (1 - int p)" using powi2_pos [of "1 - int p"] by simp
  ultimately show ?thesis by simp
qed

lemma f32_error:
  assumes "\<bar>x\<bar> \<le> 2 ^ 120"
  shows "\<exists>r. f32 x = Fin r \<and> \<bar>r - x\<bar> \<le> \<bar>x\<bar> / 2 ^ 24 + 1 / 2 ^ 150"
proof (cases "x = 0")
  case True
  then show ?thesis by simp
next
  case False
  let ?r = "rv 24 (- 126) x"
  have p1: "(2::real) powi (1 - int 24) = 1 / 2 ^ 23"
    by (simp add: power_int_minus divide_simps)
  have p2: "(2::real) powi (- 126 - int 24 + 1) = 1 / 2 ^ 149"
    by (simp add: power_int_minus divide_simps)
  have "2 powi fexp 24 (- 126) x \<le> \<bar>x\<bar> * (1 / 2 ^ 23) + 1 / 2 ^ 149"
    using fexp_bound [OF False, of 24 "- 126"] unfolding p1 p2 .
  with rv_error [of 24 "- 126" x]
  have e: "\<bar>?r - x\<bar> \<le> \<bar>x\<bar> / 2 ^ 24 + 1 / 2 ^ 150" by simp
  have "\<bar>?r\<bar> \<le> \<bar>x\<bar> + \<bar>?r - x\<bar>" by simp
  with e assms have "\<bar>?r\<bar> < 2 ^ 128" by simp
  moreover have "(2::real) powi (127 + 1) = 2 ^ 128" by simp
  ultimately have "\<not> 2 powi (127 + 1) \<le> \<bar>?r\<bar>" by simp
  then have "f32 x = Fin ?r" using False unfolding f32_def fround_alt by simp
  with e show ?thesis by blast
qed

lemma dc_arith:
  fixes A B D E F R T X Y :: real
  assumes "A \<le> B / 2 ^ 24 + 1 / 2 ^ 150" "B \<le> Y + 32768" "D \<le> Y + A"
    and "E \<le> D / 2 ^ 24 + 1 / 2 ^ 150" "F \<le> D + E"
    and "R \<le> (15938355 / 16777216) * F / 2 ^ 24 + 1 / 2 ^ 150"
    and "X \<le> E + A" "T \<le> R + (15938355 / 16777216) * X"
    and "0 \<le> Y"
  shows "T \<le> Y / 2 ^ 22 + 1 / 500"
    and "Y \<le> 2 ^ 100 \<Longrightarrow> D \<le> 2 ^ 120"
    and "Y \<le> 2 ^ 100 \<Longrightarrow> (15938355 / 16777216) * F \<le> 2 ^ 120"
  using assms by simp_all

lemma hp_dc_step:
  assumes y: "\<bar>y\<bar> \<le> 2 ^ 100"
  shows "\<exists>r. hp_output (Fin (of_int (sint c))) (Fin y) c = Fin r \<and>
             \<bar>r - (15938355 / 16777216) * y\<bar> \<le> \<bar>y\<bar> / 2 ^ 22 + 1 / 500"
proof -
  let ?c = "real_of_int (sint c)"
  let ?al = "15938355 / 16777216 :: real"
  have "real_of_int (- 32768) \<le> real_of_int (sint c)"
    "real_of_int (sint c) \<le> real_of_int 32767"
    using sint_short_bounds [of c] by (simp_all only: of_int_le_iff)
  then have c: "\<bar>?c\<bar> \<le> 32768" by simp
  have "\<bar>y + ?c\<bar> \<le> \<bar>y\<bar> + \<bar>?c\<bar>" by (rule abs_triangle_ineq)
  with c have yb: "\<bar>y + ?c\<bar> \<le> \<bar>y\<bar> + 32768" by linarith
  with y have ya: "\<bar>y + ?c\<bar> \<le> 2 ^ 120" by simp
  from f32_error [OF ya] obtain a where
    a: "f32 (y + ?c) = Fin a" and ae: "\<bar>a - (y + ?c)\<bar> \<le> \<bar>y + ?c\<bar> / 2 ^ 24 + 1 / 2 ^ 150"
    by blast
  have "\<bar>y + (a - (y + ?c))\<bar> \<le> \<bar>y\<bar> + \<bar>a - (y + ?c)\<bar>" by (rule abs_triangle_ineq)
  then have ab: "\<bar>a - ?c\<bar> \<le> \<bar>y\<bar> + \<bar>a - (y + ?c)\<bar>" by simp
  have "\<bar>a - ?c\<bar> \<le> 2 ^ 120"
    by (rule dc_arith(2) [OF ae yb ab order_refl order_refl order_refl order_refl order_refl
          abs_ge_zero y])
  from f32_error [OF this] obtain b where
    b: "f32 (a - ?c) = Fin b" and be: "\<bar>b - (a - ?c)\<bar> \<le> \<bar>a - ?c\<bar> / 2 ^ 24 + 1 / 2 ^ 150"
    by blast
  have "\<bar>(a - ?c) + (b - (a - ?c))\<bar> \<le> \<bar>a - ?c\<bar> + \<bar>b - (a - ?c)\<bar>"
    by (rule abs_triangle_ineq)
  then have bb: "\<bar>b\<bar> \<le> \<bar>a - ?c\<bar> + \<bar>b - (a - ?c)\<bar>" by simp
  have m: "\<bar>?al * b\<bar> = ?al * \<bar>b\<bar>" by (simp add: abs_mult)
  have "\<bar>?al * b\<bar> \<le> 2 ^ 120"
    unfolding m
    by (rule dc_arith(3) [OF ae yb ab be bb order_refl order_refl order_refl abs_ge_zero y])
  from f32_error [OF this] obtain r where
    r: "f32 (?al * b) = Fin r" and re: "\<bar>r - ?al * b\<bar> \<le> \<bar>?al * b\<bar> / 2 ^ 24 + 1 / 2 ^ 150"
    by blast
  have rb: "\<bar>r - ?al * b\<bar> \<le> ?al * \<bar>b\<bar> / 2 ^ 24 + 1 / 2 ^ 150" using re unfolding m .
  let ?X = "(b - (a - ?c)) + (a - (y + ?c))"
  have x: "\<bar>?X\<bar> \<le> \<bar>b - (a - ?c)\<bar> + \<bar>a - (y + ?c)\<bar>" by (rule abs_triangle_ineq)
  have "r - k * y = (r - k * b) + k * ?X" for k :: real by (simp add: algebra_simps)
  then have "r - ?al * y = (r - ?al * b) + ?al * ?X" .
  moreover have "\<bar>(r - ?al * b) + ?al * ?X\<bar> \<le> \<bar>r - ?al * b\<bar> + \<bar>?al * ?X\<bar>"
    by (rule abs_triangle_ineq)
  moreover have "\<bar>?al * ?X\<bar> = ?al * \<bar>?X\<bar>" unfolding abs_mult by simp
  ultimately have t: "\<bar>r - ?al * y\<bar> \<le> \<bar>r - ?al * b\<bar> + ?al * \<bar>?X\<bar>" by (simp only:)
  have "\<bar>r - ?al * y\<bar> \<le> \<bar>y\<bar> / 2 ^ 22 + 1 / 500"
    by (rule dc_arith(1) [OF ae yb ab be bb rb x t abs_ge_zero])
  moreover have "hp_output (Fin ?c) (Fin y) c = Fin r"
    by (simp only: hp_output_def alpha_value float_of_short fsub_def fadd.simps fneg.simps
        fmul.simps add_uminus_conv_diff a b r)
  ultimately show ?thesis by blast
qed

lemma hp_dc_step_abs:
  fixes r y :: real
  assumes "\<bar>r - (15938355 / 16777216) * y\<bar> \<le> \<bar>y\<bar> / 2 ^ 22 + 1 / 500"
  shows "\<bar>r\<bar> \<le> (15938355 / 16777216 + 1 / 2 ^ 22) * \<bar>y\<bar> + 1 / 500"
proof -
  let ?al = "15938355 / 16777216 :: real"
  have "\<bar>?al * y + (r - ?al * y)\<bar> \<le> \<bar>?al * y\<bar> + \<bar>r - ?al * y\<bar>" by (rule abs_triangle_ineq)
  then have "\<bar>r\<bar> \<le> \<bar>?al * y\<bar> + \<bar>r - ?al * y\<bar>" by simp
  moreover have "\<bar>?al * y\<bar> = ?al * \<bar>y\<bar>" by (simp add: abs_mult)
  ultimately have "\<bar>r\<bar> \<le> ?al * \<bar>y\<bar> + (\<bar>y\<bar> / 2 ^ 22 + 1 / 500)" using assms by linarith
  then show ?thesis by (simp add: algebra_simps)
qed

lemma hp_y_dc_0: "0 < N \<Longrightarrow> hp_y (replicate N c) u w 0 = hp_output u w c"
  by simp

lemma hp_y_dc_Suc:
  "Suc n < N \<Longrightarrow>
   hp_y (replicate N c) u w (Suc n) =
     hp_output (Fin (of_int (sint c))) (hp_y (replicate N c) u w n) c"
  by (simp add: float_of_short)

lemma dc_floor:
  fixes P Q R rho :: real
  assumes "R \<le> Q + 1 / 500" "Q \<le> P + rho / 20" "rho \<le> 24 / 25"
  shows "R \<le> P + 1 / 20"
  using assms by simp

lemma hp_dc_bound:
  assumes "hp_y (replicate N c) u w 0 = Fin y0" "\<bar>y0\<bar> \<le> 2 ^ 100" "n < N"
  shows "\<exists>r. hp_y (replicate N c) u w n = Fin r \<and> \<bar>r\<bar> \<le> 2 ^ 100 \<and>
             \<bar>r\<bar> \<le> (15938355 / 16777216 + 1 / 2 ^ 22) ^ n * \<bar>y0\<bar> + 1 / 20"
  using assms(3)
proof (induction n)
  case 0
  then show ?case using assms(1,2) by simp
next
  case (Suc n)
  let ?rho = "15938355 / 16777216 + 1 / 2 ^ 22 :: real"
  from Suc obtain y where
    y: "hp_y (replicate N c) u w n = Fin y" "\<bar>y\<bar> \<le> 2 ^ 100"
       "\<bar>y\<bar> \<le> ?rho ^ n * \<bar>y0\<bar> + 1 / 20" by auto
  from hp_dc_step [OF y(2), of c] obtain r where
    r: "hp_output (Fin (of_int (sint c))) (Fin y) c = Fin r"
       "\<bar>r - (15938355 / 16777216) * y\<bar> \<le> \<bar>y\<bar> / 2 ^ 22 + 1 / 500" by blast
  have ra: "\<bar>r\<bar> \<le> ?rho * \<bar>y\<bar> + 1 / 500" by (rule hp_dc_step_abs [OF r(2)])
  have 1: "hp_y (replicate N c) u w (Suc n) = Fin r"
    unfolding hp_y_dc_Suc [OF Suc.prems] y(1) by (rule r(1))
  have 2: "\<bar>r\<bar> \<le> 2 ^ 100" using ra y(2) by simp
  have "?rho * \<bar>y\<bar> \<le> ?rho * (?rho ^ n * \<bar>y0\<bar> + 1 / 20)"
    using y(3) by (intro mult_left_mono) simp_all
  also have "\<dots> = ?rho ^ Suc n * \<bar>y0\<bar> + ?rho / 20" by (simp add: algebra_simps)
  finally have "?rho * \<bar>y\<bar> \<le> ?rho ^ Suc n * \<bar>y0\<bar> + ?rho / 20" .
  from ra this have 3: "\<bar>r\<bar> \<le> ?rho ^ Suc n * \<bar>y0\<bar> + 1 / 20"
    by (rule dc_floor) simp
  from 1 2 3 show ?case by blast
qed

lemma trunc_small:
  assumes "\<bar>r\<bar> < 1"
  shows "trunc r = 0"
proof (cases "0 \<le> r")
  case True
  then have "\<lfloor>r\<rfloor> = 0" using assms by (intro floor_unique) simp_all
  then show ?thesis using True by (simp add: trunc_def)
next
  case False
  then have "\<lceil>r\<rceil> = 0" using assms by (intro ceiling_unique) simp_all
  then show ?thesis using False by (simp add: trunc_def)
qed

lemma stored_small: "\<bar>r\<bar> < 1 \<Longrightarrow> stored_sample (Fin r) = 0"
  by (simp add: trunc_small)

lemma hp_y_fix:
  "n < N \<Longrightarrow> hp_y (replicate N 1000) (Fin 1000) (Fin (19 / 32768)) n = Fin (19 / 32768)"
proof (induction n)
  case 0
  then show ?case using dc_step_fix by (simp add: dc_step_def)
next
  case (Suc n)
  then show ?case using dc_step_fix by (simp add: dc_step_def float_1000)
qed

lemma hp_final_first_block:
  "hp_final (replicate 512 1000) (Fin 0) (Fin 0) = (Fin 1000, Fin (19 / 32768))"
  using hp_run_first_block
  by (simp add: hp_run_indexed dc_block_def FRAMES_PER_BUFFER_def)

text \<open>
  Claim C9 as stated fails. On the constant input 1000 from the zero state the filter
  state after 512 samples is \<open>(1000, 19 / 32768)\<close>, and from that state every further
  output is \<open>19 / 32768\<close> again: \<open>y + 1000\<close> rounds to \<open>1000 + 20 / 32768\<close>, taking 1000
  away leaves \<open>20 / 32768\<close>, and \<open>0.95f\<close> times that rounds to \<open>19 / 32768\<close>. The
  outputs neither tend to 0 nor satisfy \<open>y[n+1] = alpha * y[n]\<close>: rounded to single
  precision, \<open>alpha * (19 / 32768)\<close> is \<open>4731699 / 2 ^ 33\<close>.
\<close>

theorem hp_dc_stalls_counterexample:
  "hp_final (replicate 512 1000) (Fin 0) (Fin 0) = (Fin 1000, Fin (19 / 32768)) \<and>
   (\<forall>n. hp_y (replicate (Suc n) 1000) (Fin 1000) (Fin (19 / 32768)) n = Fin (19 / 32768)) \<and>
   fmul f32 alpha (Fin (19 / 32768)) = Fin (4731699 / 8589934592)"
proof -
  have 1: "fmul f32 alpha (Fin (19 / 32768)) = Fin (4731699 / 8589934592)"
    by (simp add: alpha_value ev)
  have 2: "\<forall>n. hp_y (replicate (Suc n) 1000) (Fin 1000) (Fin (19 / 32768)) n = Fin (19 / 32768)"
    by (intro allI hp_y_fix lessI)
  from hp_final_first_block 2 1 show ?thesis by (intro conjI)
qed

text \<open>
  Claim C9, as the code has it. Take a constant input sequence of any \<open>short\<close> value and
  any initial filter state from which the first output \<open>y[0]\<close> is finite with
  \<open>\<bar>y[0]\<bar> \<le> 2 ^ 100\<close>. The constant \<open>alpha\<close> is \<open>0.95f\<close>, within \<open>2 ^ -26\<close> of 0.95. Every
  unclamped output \<open>y[n]\<close> is finite, and the recurrence holds up to the rounding of the
  three single-precision operations of a step:
  \<open>\<bar>y[n+1] - alpha * y[n]\<bar> \<le> \<bar>y[n]\<bar> / 2 ^ 22 + 1 / 500\<close>. So the magnitudes decay
  geometrically down to a floor:
  \<open>\<bar>y[n]\<bar> \<le> (alpha + 2 ^ -22) ^ n * \<bar>y[0]\<bar> + 1 / 20\<close>, and as soon as
  \<open>(alpha + 2 ^ -22) ^ n * \<bar>y[0]\<bar> < 19 / 20\<close> the sample the filter stores at index \<open>n\<close>
  is 0.
\<close>

theorem hp_dc_decay:
  assumes "hp_y (replicate N c) u w 0 = Fin y0" "\<bar>y0\<bar> \<le> 2 ^ 100" "n < N"
  shows "\<exists>a r. alpha = Fin a \<and> \<bar>a - 95 / 100\<bar> \<le> 1 / 2 ^ 26 \<and>
             hp_y (replicate N c) u w n = Fin r \<and>
             (Suc n < N \<longrightarrow>
                (\<exists>r'. hp_y (replicate N c) u w (Suc n) = Fin r' \<and>
                       \<bar>r' - a * r\<bar> \<le> \<bar>r\<bar> / 2 ^ 22 + 1 / 500)) \<and>
             \<bar>r\<bar> \<le> (a + 1 / 2 ^ 22) ^ n * \<bar>y0\<bar> + 1 / 20 \<and>
             ((a + 1 / 2 ^ 22) ^ n * \<bar>y0\<bar> < 19 / 20 \<longrightarrow>
                (\<exists>out st. applyHighPassFilter (replicate N c) u w = Inr (out, st) \<and>
                           out ! n = 0))"
proof -
  let ?a = "15938355 / 16777216 :: real"
  from hp_dc_bound [OF assms] obtain r where
    r: "hp_y (replicate N c) u w n = Fin r" "\<bar>r\<bar> \<le> 2 ^ 100"
       "\<bar>r\<bar> \<le> (?a + 1 / 2 ^ 22) ^ n * \<bar>y0\<bar> + 1 / 20"
    by blast
  have a: "\<bar>?a - 95 / 100\<bar> \<le> 1 / 2 ^ 26" by simp
  have s: "\<exists>r'. hp_y (replicate N c) u w (Suc n) = Fin r' \<and>
                \<bar>r' - ?a * r\<bar> \<le> \<bar>r\<bar> / 2 ^ 22 + 1 / 500"
    if "Suc n < N"
  proof -
    from hp_dc_step [OF r(2), of c] obtain r' where
      r': "hp_output (Fin (of_int (sint c))) (Fin r) c = Fin r'"
          "\<bar>r' - ?a * r\<bar> \<le> \<bar>r\<bar> / 2 ^ 22 + 1 / 500" by blast
    have "hp_y (replicate N c) u w (Suc n) = Fin r'"
      unfolding hp_y_dc_Suc [OF that] r(1) by (rule r'(1))
    with r'(2) show ?thesis by blast
  qed
  have z: "\<exists>out st. applyHighPassFilter (replicate N c) u w = Inr (out, st) \<and> out ! n = 0"
    if "(?a + 1 / 2 ^ 22) ^ n * \<bar>y0\<bar> < 19 / 20"
  proof -
    have "\<bar>r\<bar> < 1" using r(3) that by simp
    then have "stored_sample (Fin r) = 0" by (rule stored_small)
    then have "stored_sample (hp_y (replicate N c) u w n) = 0" unfolding r(1) .
    then show ?thesis
      using assms(3) by (simp add: applyHighPassFilter_run hp_run_indexed)
  qed
  from alpha_value a r(1) s r(3) z show ?thesis by blast
qed

text \<open>
  The constant 1000 from the state \<open>(1000, 0.5)\<close>: the first output is half of
  \<open>0.95f\<close>, the second and the third obey the recurrence up to rounding, and the second
  stored sample is 0.
\<close>

theorem hp_dc_decay_witness:
  "hp_y (replicate 3 1000) (Fin 1000) (Fin (1 / 2)) 0 = Fin (15938355 / 33554432) \<and>
   \<bar>15938355 / 33554432 :: real\<bar> \<le> 2 ^ 100 \<and> (1 :: nat) < 3 \<and> Suc 1 < 3 \<and>
   (15938355 / 16777216 + 1 / 2 ^ 22) ^ 1 * \<bar>15938355 / 33554432 :: real\<bar> < 19 / 20 \<and>
   (\<exists>r. alpha = Fin (15938355 / 16777216) \<and>
        \<bar>15938355 / 16777216 - 95 / 100 :: real\<bar> \<le> 1 / 2 ^ 26 \<and>
        hp_y (replicate 3 1000) (Fin 1000) (Fin (1 / 2)) 1 = Fin r \<and>
        (\<exists>r'. hp_y (replicate 3 1000) (Fin 1000) (Fin (1 / 2)) (Suc 1) = Fin r' \<and>
               \<bar>r' - 15938355 / 16777216 * r\<bar> \<le> \<bar>r\<bar> / 2 ^ 22 + 1 / 500) \<and>
        \<bar>r\<bar> \<le> (15938355 / 16777216 + 1 / 2 ^ 22) ^ 1 * \<bar>15938355 / 33554432\<bar> + 1 / 20 \<and>
        (\<exists>out st. applyHighPassFilter (replicate 3 1000) (Fin 1000) (Fin (1 / 2)) =
                    Inr (out, st) \<and> out ! 1 = 0))"
proof -
  have 1: "hp_y (replicate 3 1000) (Fin 1000) (Fin (1 / 2)) 0 = Fin (15938355 / 33554432)"
    by (simp add: hp_output_def alpha_value float_1000 fsub_def ev)
  have 2: "\<bar>15938355 / 33554432 :: real\<bar> \<le> 2 ^ 100" by simp
  have 3: "(1 :: nat) < 3" by simp
  have 4: "Suc 1 < 3" by simp
  have 5: "(15938355 / 16777216 + 1 / 2 ^ 22) ^ 1 * \<bar>15938355 / 33554432 :: real\<bar> < 19 / 20"
    by simp
  from hp_dc_decay [OF 1 2 3] obtain a r where
    h: "alpha = Fin a" "\<bar>a - 95 / 100\<bar> \<le> 1 / 2 ^ 26"
       "hp_y (replicate 3 1000) (Fin 1000) (Fin (1 / 2)) 1 = Fin r"
       "Suc 1 < 3 \<longrightarrow>
          (\<exists>r'. hp_y (replicate 3 1000) (Fin 1000) (Fin (1 / 2)) (Suc 1) = Fin r' \<and>
                 \<bar>r' - a * r\<bar> \<le> \<bar>r\<bar> / 2 ^ 22 + 1 / 500)"
       "\<bar>r\<bar> \<le> (a + 1 / 2 ^ 22) ^ 1 * \<bar>15938355 / 33554432\<bar> + 1 / 20"
       "(a + 1 / 2 ^ 22) ^ 1 * \<bar>15938355 / 33554432\<bar> < 19 / 20 \<longrightarrow>
          (\<exists>out st. applyHighPassFilter (replicate 3 1000) (Fin 1000) (Fin (1 / 2)) =
                      Inr (out, st) \<and> out ! 1 = 0)"
    by blast
  have a: "a = 15938355 / 16777216" using h(1) by (simp add: alpha_value)
  from h(1-3) h(4) [rule_format, OF 4] h(5) h(6) [rule_format, OF 5 [folded a]] 1 2 3 4 5
  show ?thesis unfolding a by blast
qed

section \<open>The noise gate on a long block of low RMS\<close>

lemma f64_scaled_int:
  assumes "\<bar>m\<bar> < 2 ^ 53" "0 \<le> k" "k \<le> 100"
  shows "f64 (of_int m * 2 ^ nat k) = Fin (of_int m * 2 ^ nat k)"
proof -
  have p: "(2::real) powi k = 2 ^ nat k" using assms(2) by (simp add: power_int_def)
  have a: "\<bar>real_of_int m\<bar> < 2 ^ 53"
    using assms(1) by (metis of_int_abs of_int_less_numeral_power_cancel_iff)
  have c: "(2::real) ^ nat k \<le> 2 ^ 100"
    using assms(3) by (intro power_increasing) simp_all
  have "\<bar>real_of_int m\<bar> * 2 ^ nat k \<le> \<bar>real_of_int m\<bar> * 2 ^ 100"
    using c by (intro mult_left_mono) simp_all
  also have "\<dots> < 2 ^ 53 * 2 ^ 100" using a by simp
  finally have "\<bar>real_of_int m\<bar> * 2 ^ nat k < 2 ^ 53 * 2 ^ 100" .
  then have b: "\<bar>real_of_int m * 2 powi k\<bar> < 2 powi (1023 + 1)"
    unfolding p by (simp add: abs_mult)
  have "fround 53 (- 1022) 1023 (real_of_int m * 2 powi k) = Fin (real_of_int m * 2 powi k)"
    by (rule fround_exact [where m = m and k = k]) (use assms b in simp_all)
  then show ?thesis by (simp add: f64_def p)
qed

lemma sum_max_squares:
  assumes "int j + int k \<le> 2 ^ 26"
  shows "foldl (\<lambda>r x. fadd f64 r (double_of_int (sint x * sint x)))
           (Fin (of_int (int j) * 2 ^ 30)) (replicate k (- 32768 :: short))
         = Fin (of_int (int j + int k) * 2 ^ 30)"
  using assms
proof (induction k arbitrary: j)
  case 0
  then show ?case by simp
next
  case (Suc k)
  have s: "sint (- 32768 :: short) * sint (- 32768 :: short) = 1073741824" by simp
  have d: "double_of_int 1073741824 = Fin 1073741824"
    using double_of_int_exact [of 1073741824] by simp
  have "\<bar>int (Suc j)\<bar> < 2 ^ 53" using Suc.prems by simp
  from f64_scaled_int [OF this, of 30]
  have e: "f64 (real_of_int (int (Suc j)) * 2 ^ 30) = Fin (real_of_int (int (Suc j)) * 2 ^ 30)"
    by simp
  have "real_of_int (int j) * 2 ^ 30 + 1073741824 = real_of_int (int (Suc j)) * 2 ^ 30"
    by (simp add: algebra_simps)
  then have st: "fadd f64 (Fin (real_of_int (int j) * 2 ^ 30)) (Fin 1073741824)
                 = Fin (real_of_int (int (Suc j)) * 2 ^ 30)"
    using e by (simp only: fadd.simps)
  have "int (Suc j) + int k \<le> 2 ^ 26" using Suc.prems by simp
  from Suc.IH [OF this] show ?case
    by (simp only: replicate_Suc foldl_Cons s d st) (simp add: algebra_simps)
qed

lemma f64_round_up_9:
  assumes "0 \<le> j" "j < 2 ^ 20"
  shows "f64 (2 ^ 56 + 16 * of_int j + 9) = Fin (2 ^ 56 + 16 * of_int (j + 1))"
proof -
  let ?x = "2 ^ 56 + 16 * real_of_int j + 9"
  have j: "0 \<le> real_of_int j" "real_of_int j < 2 ^ 20" using assms by simp_all
  have x0: "?x \<noteq> 0" "0 < ?x" using j by simp_all
  have ax: "\<bar>?x\<bar> = ?x" using j by simp
  have "2 powi 56 \<le> ?x" "?x < 2 powi (56 + 1)" using j by simp_all
  then have il: "ilog2 ?x = 56" by (rule ilog2_unique)
  have q: "(2::real) powi (max 56 (- 1022) - int 53 + 1) = 16" by simp
  have e: "?x / 16 = of_int (2 ^ 52 + j) + 9 / 16" by simp
  have r0: "rne (of_int (2 ^ 52 + j) + 9 / 16) = 2 ^ 52 + j + 1"
  proof -
    have "\<lfloor>real_of_int (2 ^ 52 + j) + 9 / 16\<rfloor> = 2 ^ 52 + j"
      by (rule floor_unique) simp_all
    then show ?thesis unfolding rne_def by (simp add: rne_pick_def)
  qed
  have r: "rne (?x / 16) = 2 ^ 52 + j + 1" unfolding e by (rule r0)
  have v: "real_of_int (2 ^ 52 + j + 1) * 16 = 2 ^ 56 + 16 * real_of_int (j + 1)" by simp
  have "\<bar>2 ^ 56 + 16 * real_of_int (j + 1)\<bar> < 2 powi (1023 + 1)" using j by simp
  then show ?thesis
    unfolding f64_def fround_def fround_q_def fround_r_def ax il q r v using x0 by simp
qed

lemma sum_nines:
  assumes "int j + int k \<le> 2 ^ 20"
  shows "foldl (\<lambda>r x. fadd f64 r (double_of_int (sint x * sint x)))
           (Fin (2 ^ 56 + 16 * of_int (int j))) (replicate k (3 :: short))
         = Fin (2 ^ 56 + 16 * of_int (int j + int k))"
  using assms
proof (induction k arbitrary: j)
  case 0
  then show ?case by simp
next
  case (Suc k)
  have s: "sint (3 :: short) * sint (3 :: short) = 9" by simp
  have d: "double_of_int 9 = Fin 9" using double_of_int_exact [of 9] by simp
  have "0 \<le> int j" "int j < 2 ^ 20" using Suc.prems by simp_all
  from f64_round_up_9 [OF this]
  have st: "fadd f64 (Fin (2 ^ 56 + 16 * real_of_int (int j))) (Fin 9)
            = Fin (2 ^ 56 + 16 * real_of_int (int (Suc j)))"
    by (simp add: algebra_simps)
  have "int (Suc j) + int k \<le> 2 ^ 20" using Suc.prems by simp
  from Suc.IH [OF this] show ?case
    by (simp only: replicate_Suc foldl_Cons s d st) (simp add: algebra_simps)
qed

lemma sum_zeros:
  assumes "f64 s = Fin s"
  shows "foldl (\<lambda>r x. fadd f64 r (double_of_int (sint x * sint x))) (Fin s)
           (replicate k (0 :: short)) = Fin s"
  using assms by (induction k) (simp_all add: double_of_int_def)

lemma leaky_block_length: "length leaky_block = 288230376190"
  by (simp add: leaky_block_def)

lemma leaky_block_sum_squares: "sum_squares leaky_block = 72057594047365120"
  by (simp add: leaky_block_def sum_squares_append sum_squares_replicate)

lemma leaky_block_float_sum:
  "isAudioAboveNoiseGate_loop leaky_block 0 (Fin 0) = Fin 72057594054705152"
proof -
  let ?f = "\<lambda>r x. fadd f64 r (double_of_int (sint (x :: short) * sint x))"
  have "foldl ?f (Fin (of_int (int 0) * 2 ^ 30)) (replicate 67108864 (- 32768))
          = Fin (of_int (int 0 + int 67108864) * 2 ^ 30)"
    by (rule sum_max_squares) simp
  then have 1: "foldl ?f (Fin 0) (replicate 67108864 (- 32768)) = Fin (2 ^ 56)" by simp
  have "foldl ?f (Fin (2 ^ 56 + 16 * of_int (int 0))) (replicate 1048576 3)
          = Fin (2 ^ 56 + 16 * of_int (int 0 + int 1048576))"
    by (rule sum_nines) simp
  then have 2: "foldl ?f (Fin (2 ^ 56)) (replicate 1048576 3) = Fin 72057594054705152" by simp
  have "f64 (of_int 4294967297 * 2 ^ nat 24) = Fin (of_int 4294967297 * 2 ^ nat 24)"
    by (rule f64_scaled_int) simp_all
  then have "f64 72057594054705152 = Fin 72057594054705152" by simp
  then have 3: "foldl ?f (Fin 72057594054705152) (replicate 288162218750 0)
                = Fin 72057594054705152" by (rule sum_zeros)
  show ?thesis
    unfolding gate_loop_foldl drop_0 leaky_block_def foldl_append 1 2 3 ..
qed

lemma leaky_block_passes: "isAudioAboveNoiseGate leaky_block"
proof -
  have n: "double_of_ulong (length leaky_block) = Fin 288230376190"
    using double_of_ulong_exact [of 288230376190] by (simp add: leaky_block_length)
  have q: "250000 + 1 / 2 ^ 23 \<le> (72057594054705152 :: real) / 288230376190" by simp
  have "flt (Fin 500) (fsqrt f64 (f64 (72057594054705152 / 288230376190)))"
    by (rule gate_above [OF q])
  then show ?thesis
    using f64_int [of 500]
    by (simp add: isAudioAboveNoiseGate_def Let_def leaky_block_float_sum n double_of_int_def
        NOISE_GATE_THRESHOLD_def)
qed

lemma leaky_block_rms: "spec_rms leaky_block \<le> real_of_int NOISE_GATE_THRESHOLD"
proof -
  have "(72057594047365120 :: real) / 288230376190 \<le> 500\<^sup>2" by simp
  then have "sqrt (72057594047365120 / 288230376190) \<le> sqrt (500\<^sup>2)"
    by (simp only: real_sqrt_le_iff)
  then show ?thesis
    by (simp add: spec_rms_sum_squares leaky_block_sum_squares leaky_block_length
        NOISE_GATE_THRESHOLD_def)
qed

lemma getSmoothed_total:
  assumes "rb_reachable s"
  shows "\<exists>ys. getSmoothed n s = Inr ys"
proof (cases "count s < n")
  case True
  then show ?thesis by (simp add: getSmoothed_def)
next
  case False
  from rb_reachable_holds [OF assms] obtain h where h: "rb_holds s h" by blast
  from getSmoothed_holds [OF h, of n] False show ?thesis by simp
qed

lemma paCallback_passed_submits:
  assumes "rb_reachable (g_audio_buffer st)" "0 < capacity (g_audio_buffer st)"
    and "isAudioAboveNoiseGate b" "\<not> g_request_stop st"
  shows "\<exists>st' a. paCallback api (Some b) st = Inr (paContinue, st') \<and>
                 submissions st' = submissions st @ [a]"
proof -
  from preprocessAudio_total [of b st] obtain a u w g where
    p: "preprocessAudio b st =
          Inr (a, st\<lparr>prev_input := u, prev_output := w, g_current_gain := g\<rparr>)" by blast
  from push_reachable [OF assms(1,2), of a] obtain buf where
    b: "push a (g_audio_buffer st) = Inr buf" "rb_reachable buf" by blast
  from getSmoothed_total [OF b(2), of "length b"] obtain ys where
    y: "getSmoothed (length b) buf = Inr ys" by blast
  let ?st2 = "st\<lparr>prev_input := u, prev_output := w, g_current_gain := g,
                   g_audio_buffer := buf\<rparr>"
  let ?st3 = "?st2\<lparr>trace := trace ?st2 @ [FallbackUsed]\<rparr>"
  have s2: "submissions ?st2 = submissions st" by (simp add: submissions_def)
  have s3: "submissions ?st3 = submissions st" by (simp add: submissions_def)
  have "paCallback api (Some b) st =
          Inr (paContinue,
               if ys = [] then feed_recognizer api a ?st3 else feed_recognizer api ys ?st2)"
    using assms(3,4) p b(1) y by (simp add: paCallback_def)
  moreover have "submissions (feed_recognizer api a ?st3) = submissions st @ [a]"
    unfolding feed_recognizer_frame(7) s3 ..
  moreover have "submissions (feed_recognizer api ys ?st2) = submissions st @ [ys]"
    unfolding feed_recognizer_frame(7) s2 ..
  ultimately show ?thesis by (cases "ys = []") auto
qed

text \<open>
  Claim C6 as stated (every block of RMS at or below the threshold) fails on a block
  too long for the double-precision sum of squares to stay exact. After \<open>2 ^ 26\<close>
  samples of \<open>-32768\<close> the sum is \<open>2 ^ 56\<close>, where doubles are 16 apart, so each of the
  \<open>2 ^ 20\<close> samples of 3 adds 16 instead of 9. With the zeros that follow, the computed
  mean is above 250000 and the gate opens, while the real RMS is below 500: the
  callback goes on and submits a waveform to the recognizer.
\<close>

theorem gate_low_rms_passes_counterexample:
  "0 < length leaky_block \<and>
   spec_rms leaky_block \<le> real_of_int NOISE_GATE_THRESHOLD \<and>
   isAudioAboveNoiseGate leaky_block \<and>
   submissions session_start = [] \<and>
   (\<exists>st' a. paCallback null_api (Some leaky_block) session_start = Inr (paContinue, st') \<and>
            submissions st' = [a])"
proof -
  have i: "session_inv session_start"
    unfolding session_start_def by (rule session_init_inv [OF new_buffer])
  then have r: "rb_reachable (g_audio_buffer session_start)"
    and c: "0 < capacity (g_audio_buffer session_start)"
    by (simp_all add: session_inv_def AUDIO_BUFFER_SIZE_def)
  have ns: "\<not> g_request_stop session_start"
    by (simp add: session_start_def session_init_def)
  have s: "submissions session_start = []"
    by (simp add: session_start_def session_init_def submissions_def)
  from paCallback_passed_submits [OF r c leaky_block_passes ns, of null_api] s
  have "\<exists>st' a. paCallback null_api (Some leaky_block) session_start = Inr (paContinue, st') \<and>
            submissions st' = [a]" by simp
  then show ?thesis using leaky_block_rms leaky_block_passes s
    by (simp add: leaky_block_length)
qed

end
